theory Spec2Isabelle
  imports Complex_Main
begin

section \<open>Values, errors and arrays\<close>

text \<open>
  The exceptions the modelled code can raise: an out-of-range index (\<open>IndexError\<close>),
  a reshape to an incompatible size (\<open>ValueError\<close>) and the read of a local variable
  that was never bound (\<open>UnboundLocalError\<close>).
\<close>

datatype pyerr = IndexError | ValueError | UnboundLocalError

text \<open>
  A floating point number, as far as comparisons see it: NaN, or a number. Every
  comparison with NaN is false.
\<close>

datatype pyfloat = NaN | Num real

fun fgt :: "pyfloat \<Rightarrow> pyfloat \<Rightarrow> bool" where
  "fgt (Num a) (Num b) = (a > b)"
| "fgt _ _ = False"

fun flt :: "pyfloat \<Rightarrow> pyfloat \<Rightarrow> bool" where
  "flt (Num a) (Num b) = (a < b)"
| "flt _ _ = False"

text \<open>
  The local variable \<open>c\<close> of \<open>extractStructures\<close> first holds the scalar field and is
  then rebound to boolean arrays, so an array element is a float or a boolean. A boolean
  compares as 1 or 0.
\<close>

datatype npval = FloatV pyfloat | BoolV bool

fun as_float :: "npval \<Rightarrow> pyfloat" where
  "as_float (FloatV f) = f"
| "as_float (BoolV b) = Num (if b then 1 else 0)"

text \<open>
  A dense array: its shape and its elements by multi-index. \<open>asize\<close> is the number of
  elements.
\<close>

record 'a ndarray =
  shape :: "nat list"
  elem :: "nat list \<Rightarrow> 'a"

definition asize :: "'a ndarray \<Rightarrow> nat" where
  "asize a = prod_list (shape a)"

text \<open>A one-dimensional array holding a list (how the caller passes the field).\<close>

definition from_list :: "'a list \<Rightarrow> 'a ndarray" where
  "from_list xs = \<lparr>shape = [length xs], elem = (\<lambda>ix. xs ! hd ix)\<rparr>"

text \<open>
  The multi-index of the element at a flat position, in C order (last index fastest) and
  in Fortran order (first index fastest).
\<close>

fun unravelC :: "nat list \<Rightarrow> nat \<Rightarrow> nat list" where
  "unravelC [] off = []"
| "unravelC (d # ds) off = (off div prod_list ds) mod d # unravelC ds off"

fun unravelF :: "nat list \<Rightarrow> nat \<Rightarrow> nat list" where
  "unravelF [] off = []"
| "unravelF (d # ds) off = off mod d # unravelF ds (off div d)"

text \<open>
  \<open>np.reshape(c, [xlen, ylen, zlen])\<close>, with \<open>order = 'F'\<close> when \<open>_zFastest\<close> is false:
  a \<open>ValueError\<close> when the sizes differ; otherwise the elements are read in the chosen
  order and placed in the same order.
\<close>

definition np_reshape :: "bool \<Rightarrow> 'a ndarray \<Rightarrow> nat \<Rightarrow> nat \<Rightarrow> nat \<Rightarrow> pyerr + 'a ndarray" where
  "np_reshape zFastest c xlen ylen zlen =
     (if asize c \<noteq> xlen * ylen * zlen then Inl ValueError
      else Inr \<lparr>shape = [xlen, ylen, zlen],
                elem = (\<lambda>ix. case ix of
                   [i, j, k] \<Rightarrow>
                     (if zFastest then elem c (unravelC (shape c) ((i * ylen + j) * zlen + k))
                      else elem c (unravelF (shape c) (i + xlen * (j + ylen * k))))
                 | _ \<Rightarrow> elem c ix)\<rparr>)"

section \<open>Thresholding and padding\<close>

text \<open>
  \<open>if _threshVal > 0: c = (c > _threshVal) else: c = (c < _threshVal)\<close>. The comparison
  builds a new array; the array it reads is not written.
\<close>

definition occupied :: "pyfloat \<Rightarrow> npval \<Rightarrow> bool" where
  "occupied t v = (if fgt t (Num 0) then fgt (as_float v) t else flt (as_float v) t)"

definition threshold :: "pyfloat \<Rightarrow> npval ndarray \<Rightarrow> bool ndarray" where
  "threshold t c = \<lparr>shape = shape c, elem = (\<lambda>ix. occupied t (elem c ix))\<rparr>"

text \<open>
  \<open>mz = np.zeros((xlen + 1, ylen + 1, zlen + 1)); mz[:sx, :sy, :sz] = c\<close>, where
  \<open>(sx, sy, sz)\<close> is the shape of \<open>c\<close>, which the reshape made \<open>(xlen, ylen, zlen)\<close>.
\<close>

definition pad :: "nat \<Rightarrow> nat \<Rightarrow> nat \<Rightarrow> bool ndarray \<Rightarrow> bool ndarray" where
  "pad xlen ylen zlen c =
     \<lparr>shape = [xlen + 1, ylen + 1, zlen + 1],
      elem = (\<lambda>ix. case ix of
                [i, j, k] \<Rightarrow> (case shape c of
                    [sx, sy, sz] \<Rightarrow> if i < sx \<and> j < sy \<and> k < sz then elem c ix else False
                  | _ \<Rightarrow> False)
              | _ \<Rightarrow> False)\<rparr>"

section \<open>Indexing with wrap-around\<close>

text \<open>
  One axis of a numpy index: a negative index counts from the end; an index that is
  still out of range raises \<open>IndexError\<close>.
\<close>

definition norm_axis :: "nat \<Rightarrow> int \<Rightarrow> pyerr + nat" where
  "norm_axis n i =
     (let j = (if i < 0 then i + int n else i)
      in if 0 \<le> j \<and> j < int n then Inr (nat j) else Inl IndexError)"

type_synonym idx = "int \<times> int \<times> int"

fun norm3 :: "nat list \<Rightarrow> idx \<Rightarrow> pyerr + nat list" where
  "norm3 [X, Y, Z] (i, j, k) =
     (case norm_axis X i of Inl e \<Rightarrow> Inl e | Inr a \<Rightarrow>
      (case norm_axis Y j of Inl e \<Rightarrow> Inl e | Inr b \<Rightarrow>
       (case norm_axis Z k of Inl e \<Rightarrow> Inl e | Inr c \<Rightarrow> Inr [a, b, c])))"
| "norm3 _ _ = Inl IndexError"

definition get3 :: "'a ndarray \<Rightarrow> idx \<Rightarrow> pyerr + 'a" where
  "get3 a p = (case norm3 (shape a) p of Inl e \<Rightarrow> Inl e | Inr q \<Rightarrow> Inr (elem a q))"

definition set3 :: "'a ndarray \<Rightarrow> idx \<Rightarrow> 'a \<Rightarrow> pyerr + 'a ndarray" where
  "set3 a p v =
     (case norm3 (shape a) p of Inl e \<Rightarrow> Inl e | Inr q \<Rightarrow> Inr (a\<lparr>elem := (elem a)(q := v)\<rparr>))"

section \<open>Component labelling\<close>

text \<open>
  The 26 flags \<open>_f1 \<dots> _f6\<close>, \<open>_e1 \<dots> _e12\<close>, \<open>_c1 \<dots> _c8\<close> of one expansion step, and
  the neighbour offset each of them belongs to, as the source reads them.
\<close>

datatype flag =
    F1 | F2 | F3 | F4 | F5 | F6
  | E1 | E2 | E3 | E4 | E5 | E6 | E7 | E8 | E9 | E10 | E11 | E12
  | C1 | C2 | C3 | C4 | C5 | C6 | C7 | C8

fun offset :: "flag \<Rightarrow> idx" where
  "offset F1 = (1, 0, 0)"
| "offset F2 = (- 1, 0, 0)"
| "offset F3 = (0, 1, 0)"
| "offset F4 = (0, - 1, 0)"
| "offset F5 = (0, 0, 1)"
| "offset F6 = (0, 0, - 1)"
| "offset E1 = (1, 1, 0)"
| "offset E2 = (1, - 1, 0)"
| "offset E3 = (- 1, 1, 0)"
| "offset E4 = (- 1, - 1, 0)"
| "offset E5 = (1, 0, 1)"
| "offset E6 = (- 1, 0, 1)"
| "offset E7 = (0, 1, 1)"
| "offset E8 = (0, - 1, 1)"
| "offset E9 = (1, 0, - 1)"
| "offset E10 = (- 1, 0, - 1)"
| "offset E11 = (0, 1, - 1)"
| "offset E12 = (0, - 1, - 1)"
| "offset C1 = (1, 1, 1)"
| "offset C2 = (1, - 1, 1)"
| "offset C3 = (- 1, 1, 1)"
| "offset C4 = (- 1, - 1, 1)"
| "offset C5 = (1, 1, - 1)"
| "offset C6 = (1, - 1, - 1)"
| "offset C7 = (- 1, 1, - 1)"
| "offset C8 = (- 1, - 1, - 1)"

text \<open>The order in which the source checks the neighbours, and later appends them.\<close>

definition all_flags :: "flag list" where
  "all_flags = [F1, F2, F3, F4, F5, F6,
                E1, E2, E3, E4, E5, E6, E7, E8, E9, E10, E11, E12,
                C1, C2, C3, C4, C5, C6, C7, C8]"

fun add3 :: "idx \<Rightarrow> idx \<Rightarrow> idx" where
  "add3 (i, j, k) (a, b, c) = (i + a, j + b, k + c)"

text \<open>
  The state of one expansion step: the label grid \<open>_structValuedGrid\<close> (dtype uint32),
  the cube \<open>_auxCube\<close> and the flags. \<open>_auxCube\<close> has shape (3, 3, 3) and is only ever
  indexed by an offset with components in \<open>{-1, 0, 1}\<close>, where \<open>-1\<close> is its last plane;
  the model keys it by the offset.
\<close>

record step_state =
  grid :: "nat ndarray"
  aux :: "idx \<Rightarrow> nat"
  flags :: "flag \<Rightarrow> bool"

text \<open>
  One of the 26 guarded blocks
  \<open>try: if c[q]: if not grid[q] > 0: grid[q] = _structVal; _auxCube[d] = 1; flag = True
  except IndexError: pass\<close>.
  The label is stored in an unsigned 32-bit cell. For \<open>_e5\<close> the source stores
  \<open>_structVal\<close> in \<open>_auxCube\<close> instead of 1.
\<close>

definition try_link :: "bool ndarray \<Rightarrow> nat \<Rightarrow> idx \<Rightarrow> flag \<Rightarrow> step_state \<Rightarrow> step_state" where
  "try_link c structVal p f st =
     (let q = add3 p (offset f) in
      case get3 c q of
        Inl _ \<Rightarrow> st
      | Inr occ \<Rightarrow>
          if occ then
            (case get3 (grid st) q of
               Inl _ \<Rightarrow> st
             | Inr l \<Rightarrow>
                 if \<not> l > 0 then
                   (case set3 (grid st) q (structVal mod 2 ^ 32) of
                      Inl _ \<Rightarrow> st
                    | Inr g \<Rightarrow>
                        st\<lparr>grid := g,
                           aux := (aux st)(offset f := (if f = E5 then structVal else 1)),
                           flags := (flags st)(f := True)\<rparr>)
                 else st)
          else st)"

definition link_all :: "bool ndarray \<Rightarrow> nat \<Rightarrow> idx \<Rightarrow> nat ndarray \<Rightarrow> step_state" where
  "link_all c structVal p L =
     fold (try_link c structVal p) all_flags
       \<lparr>grid = L, aux = (\<lambda>_. 0), flags = (\<lambda>_. False)\<rparr>"

subsection \<open>The marching cubes extension\<close>

text \<open>The eight sub-cubes \<open>_cube1 \<dots> _cube8\<close> built from the flags.\<close>

definition cubes :: "(flag \<Rightarrow> bool) \<Rightarrow> bool list list" where
  "cubes fl =
     [[fl F6, fl E9, fl C6, fl E12, True, fl F1, fl E2, fl F4],
      [fl E10, fl F6, fl E12, fl C8, fl F2, True, fl F4, fl E4],
      [fl C7, fl E11, fl F6, fl E10, fl E3, fl F3, True, fl F2],
      [fl E11, fl C5, fl E9, fl F6, fl F3, fl E1, fl F1, True],
      [True, fl F1, fl E2, fl F4, fl F5, fl E5, fl C2, fl E8],
      [fl F2, True, fl F4, fl E4, fl E6, fl F5, fl E8, fl C4],
      [fl E3, fl F3, True, fl F2, fl C3, fl E7, fl F5, fl E6],
      [fl F3, fl E1, fl F1, True, fl E7, fl C1, fl E5, fl F5]]"

definition find_case_number :: "bool list \<Rightarrow> nat" where
  "find_case_number cube = sum_list (map (\<lambda>v. 2 ^ v) (filter (\<lambda>v. cube ! v) [0..<8]))"

text \<open>
  For cube \<open>ii\<close>, the corner index of the cell itself (\<open>if 4 not in _caseVal[jj]\<close> for
  cube 1, and so on), and the cell each other corner index resets, as an offset from the
  cell: the branches \<open>if _removeVal[kk] == v: grid[\<dots>] = 0; _auxCube[\<dots>] = 0\<close>.
\<close>

definition anchor :: "nat \<Rightarrow> nat" where
  "anchor ii = [4, 5, 6, 7, 0, 1, 2, 3] ! ii"

definition remove_table :: "(nat \<times> idx) list list" where
  "remove_table =
     [[(0, (0, 0, - 1)), (1, (1, 0, - 1)), (2, (1, - 1, - 1)), (3, (0, - 1, - 1)),
       (5, (1, 0, 0)), (6, (1, - 1, 0)), (7, (0, - 1, 0))],
      [(0, (- 1, 0, - 1)), (1, (0, 0, - 1)), (2, (0, - 1, - 1)), (3, (- 1, - 1, - 1)),
       (4, (- 1, 0, 0)), (6, (0, - 1, 0)), (7, (- 1, - 1, 0))],
      [(0, (- 1, 1, - 1)), (1, (0, 1, - 1)), (2, (0, 0, - 1)), (3, (- 1, 0, - 1)),
       (4, (- 1, 1, 0)), (5, (0, 1, 0)), (7, (- 1, 0, 0))],
      [(0, (0, 1, - 1)), (1, (1, 1, - 1)), (2, (1, 0, - 1)), (3, (0, 0, - 1)),
       (4, (0, 1, 0)), (5, (1, 1, 0)), (6, (1, 0, 0))],
      [(1, (1, 0, 0)), (2, (1, - 1, 0)), (3, (0, - 1, 0)), (4, (0, 0, 1)),
       (5, (1, 0, 1)), (6, (1, - 1, 1)), (7, (0, - 1, 1))],
      [(0, (- 1, 0, 0)), (2, (0, - 1, 0)), (3, (- 1, - 1, 0)), (4, (- 1, 0, 1)),
       (5, (0, 0, 1)), (6, (0, - 1, 1)), (7, (- 1, - 1, 1))],
      [(0, (- 1, 1, 0)), (1, (0, 1, 0)), (3, (- 1, 0, 0)), (4, (- 1, 1, 1)),
       (5, (0, 1, 1)), (6, (0, 0, 1)), (7, (- 1, 0, 1))],
      [(0, (0, 1, 0)), (1, (1, 1, 0)), (2, (1, 0, 0)), (4, (0, 1, 1)),
       (5, (1, 1, 1)), (6, (1, 0, 1)), (7, (0, 0, 1))]]"

fun fold_err :: "('a \<Rightarrow> 's \<Rightarrow> pyerr + 's) \<Rightarrow> 'a list \<Rightarrow> 's \<Rightarrow> pyerr + 's" where
  "fold_err f [] s = Inr s"
| "fold_err f (x # xs) s = (case f x s of Inl e \<Rightarrow> Inl e | Inr s' \<Rightarrow> fold_err f xs s')"

text \<open>
  The writes of the extension stand outside any \<open>try\<close>: an \<open>IndexError\<close> there ends the
  whole call.
\<close>

definition reset_val :: "idx \<Rightarrow> nat \<Rightarrow> nat \<Rightarrow> step_state \<Rightarrow> pyerr + step_state" where
  "reset_val p ii v st =
     (case map_of (remove_table ! ii) v of
        None \<Rightarrow> Inr st
      | Some d \<Rightarrow>
          (case set3 (grid st) (add3 p d) 0 of
             Inl e \<Rightarrow> Inl e
           | Inr g \<Rightarrow> Inr (st\<lparr>grid := g, aux := (aux st)(d := 0)\<rparr>)))"

definition resolve_subset :: "idx \<Rightarrow> nat \<Rightarrow> nat list \<Rightarrow> step_state \<Rightarrow> pyerr + step_state" where
  "resolve_subset p ii removeVal st =
     (if anchor ii \<notin> set removeVal then fold_err (reset_val p ii) removeVal st else Inr st)"

definition resolve_cube ::
  "(nat \<Rightarrow> nat list list) \<Rightarrow> idx \<Rightarrow> nat list \<Rightarrow> nat \<Rightarrow> step_state \<Rightarrow> pyerr + step_state" where
  "resolve_cube outliers p cases ii st =
     (let caseVal = outliers (cases ! ii)
      in if length caseVal > 0 then fold_err (resolve_subset p ii) caseVal st else Inr st)"

text \<open>
  \<open>outliers\<close> is the table of the module \<open>MCOutliers\<close>, from a case number to the lists of
  corner indices; it is a parameter here.
\<close>

definition resolver :: "(nat \<Rightarrow> nat list list) \<Rightarrow> idx \<Rightarrow> step_state \<Rightarrow> pyerr + step_state" where
  "resolver outliers p st =
     (let cases = map find_case_number (cubes (flags st))
      in fold_err (resolve_cube outliers p cases) [0..<8] st)"

text \<open>The 26 statements \<open>if _auxCube[d]: _neighborVal.append(p + d)\<close>.\<close>

definition new_neighbors :: "idx \<Rightarrow> step_state \<Rightarrow> idx list" where
  "new_neighbors p st =
     map (\<lambda>f. add3 p (offset f)) (filter (\<lambda>f. aux st (offset f) \<noteq> 0) all_flags)"

text \<open>
  The body of the \<open>while\<close> loop for the cell \<open>p\<close>: the label grid after it and the cells
  it appends to \<open>_neighborVal\<close>. \<open>marchingCubesExt\<close> is the global \<open>_marchingCubesExt\<close>.
\<close>

definition expand ::
  "bool \<Rightarrow> (nat \<Rightarrow> nat list list) \<Rightarrow> bool ndarray \<Rightarrow> nat \<Rightarrow> idx \<Rightarrow> nat ndarray
     \<Rightarrow> pyerr + nat ndarray \<times> idx list" where
  "expand marchingCubesExt outliers c structVal p L =
     (let st = link_all c structVal p L
      in case (if marchingCubesExt then resolver outliers p st else Inr st) of
           Inl e \<Rightarrow> Inl e
         | Inr st' \<Rightarrow> Inr (grid st', new_neighbors p st'))"

text \<open>
  The loop \<open>while True\<close>: the first round expands the cell of the scan, every later round
  takes \<open>_neighborVal[_neighborCounter]\<close> and leaves the loop on \<open>IndexError\<close>. The loop
  need not end, so its result is an option.
\<close>

partial_function (option) grow ::
  "bool \<Rightarrow> (nat \<Rightarrow> nat list list) \<Rightarrow> bool ndarray \<Rightarrow> nat \<Rightarrow> nat ndarray \<Rightarrow> idx list
     \<Rightarrow> nat \<Rightarrow> nat \<Rightarrow> idx \<Rightarrow> (pyerr + nat ndarray \<times> idx list) option" where
  "grow marchingCubesExt outliers c structVal L neighborVal neighborCounter loopCounter p =
     (if loopCounter > 0 \<and> \<not> neighborCounter < length neighborVal then Some (Inr (L, neighborVal))
      else
        (let p' = (if loopCounter > 0 then neighborVal ! neighborCounter else p);
             neighborCounter' = (if loopCounter > 0 then neighborCounter + 1 else neighborCounter)
         in case expand marchingCubesExt outliers c structVal p' L of
              Inl e \<Rightarrow> Some (Inl e)
            | Inr (L', new) \<Rightarrow>
                grow marchingCubesExt outliers c structVal L' (neighborVal @ new)
                  neighborCounter' (loopCounter + 1) p'))"

declare grow.simps [code]

text \<open>
  A line of \<open>NeighborInformation.txt\<close>: the structure and, per axis, the least and the
  greatest coordinate of its cells.
\<close>

type_synonym bbox = "nat \<times> (int \<times> int) \<times> (int \<times> int) \<times> (int \<times> int)"

definition min_max :: "int list \<Rightarrow> int \<times> int" where
  "min_max xs = (fold min (tl xs) (hd xs), fold max (tl xs) (hd xs))"

definition bounding_box :: "nat \<Rightarrow> idx list \<Rightarrow> bbox" where
  "bounding_box structVal cells =
     (structVal, min_max (map fst cells), min_max (map (fst \<circ> snd) cells),
      min_max (map (snd \<circ> snd) cells))"

record scan_state =
  structVal :: nat
  labels :: "nat ndarray"
  boxes :: "bbox list"

text \<open>The body of the three scan loops at the cell \<open>p\<close>.\<close>

definition scan_cell ::
  "bool \<Rightarrow> (nat \<Rightarrow> nat list list) \<Rightarrow> bool \<Rightarrow> bool ndarray \<Rightarrow> idx \<Rightarrow> scan_state
     \<Rightarrow> (pyerr + scan_state) option" where
  "scan_cell marchingCubesExt outliers writeNeighborInformation c p st =
     (case get3 c p of
        Inl e \<Rightarrow> Some (Inl e)
      | Inr occ \<Rightarrow>
          if occ then
            (case get3 (labels st) p of
               Inl e \<Rightarrow> Some (Inl e)
             | Inr l \<Rightarrow>
                 if \<not> l > 0 then
                   (let s = structVal st + 1 in
                    case set3 (labels st) p (s mod 2 ^ 32) of
                      Inl e \<Rightarrow> Some (Inl e)
                    | Inr L \<Rightarrow>
                        (case grow marchingCubesExt outliers c s L [] 0 0 p of
                           None \<Rightarrow> None
                         | Some (Inl e) \<Rightarrow> Some (Inl e)
                         | Some (Inr (L', neighborVal)) \<Rightarrow>
                             Some (Inr \<lparr>structVal = s, labels = L',
                               boxes = boxes st @
                                 (if writeNeighborInformation
                                  then [bounding_box s (neighborVal @ [p])] else [])\<rparr>)))
                 else Some (Inr st))
          else Some (Inr st))"

fun scan ::
  "bool \<Rightarrow> (nat \<Rightarrow> nat list list) \<Rightarrow> bool \<Rightarrow> bool ndarray \<Rightarrow> idx list \<Rightarrow> scan_state
     \<Rightarrow> (pyerr + scan_state) option" where
  "scan mc outliers wn c [] st = Some (Inr st)"
| "scan mc outliers wn c (p # ps) st =
     (case scan_cell mc outliers wn c p st of
        None \<Rightarrow> None
      | Some (Inl e) \<Rightarrow> Some (Inl e)
      | Some (Inr st') \<Rightarrow> scan mc outliers wn c ps st')"

text \<open>\<open>for i in range(X): for j in range(Y): for k in range(Z)\<close>.\<close>

definition positions :: "nat \<Rightarrow> nat \<Rightarrow> nat \<Rightarrow> idx list" where
  "positions X Y Z =
     concat (map (\<lambda>i. concat (map (\<lambda>j. map (\<lambda>k. (int i, int j, int k)) [0..<Z]) [0..<Y])) [0..<X])"

definition zeros :: "nat list \<Rightarrow> nat ndarray" where
  "zeros sh = \<lparr>shape = sh, elem = (\<lambda>_. 0)\<rparr>"

text \<open>The labelling of a padded occupancy grid of shape \<open>(xlen + 1, ylen + 1, zlen + 1)\<close>.\<close>

definition label_grid ::
  "bool \<Rightarrow> (nat \<Rightarrow> nat list list) \<Rightarrow> bool \<Rightarrow> bool ndarray \<Rightarrow> nat \<Rightarrow> nat \<Rightarrow> nat
     \<Rightarrow> (pyerr + scan_state) option" where
  "label_grid mc outliers wn c xlen ylen zlen =
     scan mc outliers wn c (positions (xlen + 1) (ylen + 1) (zlen + 1))
       \<lparr>structVal = 0, labels = zeros [xlen + 1, ylen + 1, zlen + 1], boxes = []\<rparr>"

text \<open>\<open>_structValuedGrid[:xlen, :ylen, :zlen].ravel()\<close>.\<close>

definition crop_ravel :: "'a ndarray \<Rightarrow> nat \<Rightarrow> nat \<Rightarrow> nat \<Rightarrow> 'a list" where
  "crop_ravel L xlen ylen zlen =
     concat (map (\<lambda>i. concat (map (\<lambda>j. map (\<lambda>k. elem L [i, j, k]) [0..<zlen]) [0..<ylen])) [0..<xlen])"

section \<open>Statistics\<close>

text \<open>
  \<open>u, counts = np.unique(grid, return_counts = True)\<close>: the distinct values in
  increasing order, each with the number of its occurrences.
\<close>

definition np_unique :: "nat list \<Rightarrow> nat list \<times> nat list" where
  "np_unique xs = (let u = sort (remdups xs) in (u, map (count_list xs) u))"

text \<open>
  \<open>countsall\<close> is the sorted copy of \<open>counts\<close>; \<open>Vmax = countsall[::-1][1]\<close> raises
  \<open>IndexError\<close> when there are fewer than two distinct values, and
  \<open>Vall = sum(countsall[::-1][1:])\<close>.
\<close>

definition percolation_stats :: "nat list \<Rightarrow> pyerr + (nat \<times> nat)" where
  "percolation_stats xs =
     (let counts = snd (np_unique xs);
          countsall = sort counts;
          r = rev countsall
      in if length r < 2 then Inl IndexError
         else Inr (r ! 1, sum_list (drop 1 r)))"

text \<open>
  What the contract of the statistics speaks of: the count of every label that occurs,
  the counts of the labels greater than 0, their greatest and their sum, and the count
  of one label (0 when it does not occur).
\<close>

definition label_counts :: "nat list \<Rightarrow> (nat \<times> nat) list" where
  "label_counts xs = zip (fst (np_unique xs)) (snd (np_unique xs))"

definition structure_counts :: "nat list \<Rightarrow> nat list" where
  "structure_counts xs = map snd (filter (\<lambda>(l, n). 0 < l) (label_counts xs))"

definition max_structure_volume :: "nat list \<Rightarrow> nat" where
  "max_structure_volume xs = fold max (structure_counts xs) 0"

definition total_volume :: "nat list \<Rightarrow> nat" where
  "total_volume xs = sum_list (structure_counts xs)"

definition count_of_label :: "nat list \<Rightarrow> nat \<Rightarrow> nat" where
  "count_of_label xs l = (case map_of (label_counts xs) l of None \<Rightarrow> 0 | Some n \<Rightarrow> n)"

section \<open>The threshold loop\<close>

text \<open>
  The variables of \<open>extractStructures\<close> that live across the rounds of
  \<open>for _threshVal in _threshValList\<close>: the local \<open>c\<close> (assigned in every round),
  \<open>_structValuedGrid\<close> (unbound before the first round), and the lines appended to
  \<open>Percolation_threshold.txt\<close> and \<open>NeighborInformation.txt\<close>.
\<close>

record run_state =
  local_c :: "npval ndarray"
  structValuedGrid :: "nat list option"
  percolation :: "(pyfloat \<times> nat \<times> nat) list"
  neighborInformation :: "bbox list"

definition as_npval :: "bool ndarray \<Rightarrow> npval ndarray" where
  "as_npval a = \<lparr>shape = shape a, elem = (\<lambda>ix. BoolV (elem a ix))\<rparr>"

text \<open>
  One round of the loop. Every assignment to \<open>c\<close> is an assignment to the one local
  variable, so the round leaves the padded occupancy grid in it. An exception ends the
  call; the model then returns the exception alone.
\<close>

definition one_threshold ::
  "bool \<Rightarrow> (nat \<Rightarrow> nat list list) \<Rightarrow> nat \<Rightarrow> nat \<Rightarrow> nat \<Rightarrow> bool \<Rightarrow> bool \<Rightarrow> bool
     \<Rightarrow> pyfloat \<Rightarrow> run_state \<Rightarrow> (pyerr + run_state) option" where
  "one_threshold mc outliers xlen ylen zlen zFastest wn wp threshVal rs =
     (case np_reshape zFastest (local_c rs) xlen ylen zlen of
        Inl e \<Rightarrow> Some (Inl e)
      | Inr c1 \<Rightarrow>
          (let c2 = threshold threshVal c1;
               c3 = pad xlen ylen zlen c2
           in case label_grid mc outliers wn c3 xlen ylen zlen of
                None \<Rightarrow> None
              | Some (Inl e) \<Rightarrow> Some (Inl e)
              | Some (Inr st) \<Rightarrow>
                  (let g = crop_ravel (labels st) xlen ylen zlen
                   in case percolation_stats g of
                        Inl e \<Rightarrow> Some (Inl e)
                      | Inr (Vmax, Vall) \<Rightarrow>
                          Some (Inr \<lparr>local_c = as_npval c3,
                            structValuedGrid = Some g,
                            percolation = percolation rs @
                              (if wp then [(threshVal, Vmax, Vall)] else []),
                            neighborInformation = neighborInformation rs @ boxes st\<rparr>))))"

fun threshold_loop ::
  "bool \<Rightarrow> (nat \<Rightarrow> nat list list) \<Rightarrow> nat \<Rightarrow> nat \<Rightarrow> nat \<Rightarrow> bool \<Rightarrow> bool \<Rightarrow> bool
     \<Rightarrow> pyfloat list \<Rightarrow> run_state \<Rightarrow> (pyerr + run_state) option" where
  "threshold_loop mc outliers xlen ylen zlen zFastest wn wp [] rs = Some (Inr rs)"
| "threshold_loop mc outliers xlen ylen zlen zFastest wn wp (t # ts) rs =
     (case one_threshold mc outliers xlen ylen zlen zFastest wn wp t rs of
        None \<Rightarrow> None
      | Some (Inl e) \<Rightarrow> Some (Inl e)
      | Some (Inr rs') \<Rightarrow> threshold_loop mc outliers xlen ylen zlen zFastest wn wp ts rs')"

text \<open>
  \<open>extractStructures(_threshValList, c, xlen, ylen, zlen, _zFastest,
  _writeNeighborInformation, _writePercolationData)\<close>, with the global
  \<open>_marchingCubesExt\<close> and the imported table \<open>outliers\<close> as the first two arguments.
  It returns \<open>_structValuedGrid\<close>; the model adds the lines written to the two files.
\<close>

definition extractStructures ::
  "bool \<Rightarrow> (nat \<Rightarrow> nat list list) \<Rightarrow> pyfloat list \<Rightarrow> npval ndarray \<Rightarrow> nat \<Rightarrow> nat \<Rightarrow> nat
     \<Rightarrow> bool \<Rightarrow> bool \<Rightarrow> bool
     \<Rightarrow> (pyerr + nat list \<times> (pyfloat \<times> nat \<times> nat) list \<times> bbox list) option" where
  "extractStructures mc outliers threshValList c xlen ylen zlen zFastest wn wp =
     (case threshold_loop mc outliers xlen ylen zlen zFastest wn wp threshValList
             \<lparr>local_c = c, structValuedGrid = None, percolation = [],
              neighborInformation = []\<rparr> of
        None \<Rightarrow> None
      | Some (Inl e) \<Rightarrow> Some (Inl e)
      | Some (Inr rs) \<Rightarrow>
          (case structValuedGrid rs of
             None \<Rightarrow> Some (Inl UnboundLocalError)
           | Some g \<Rightarrow> Some (Inr (g, percolation rs, neighborInformation rs))))"

section \<open>Box counting\<close>

text \<open>
  \<open>computeFast\<close> is compiled by numba without bounds checks; the model reads the element
  function of the array, which is specified only inside its shape. The counts \<open>n\<close> are
  kept as natural numbers (the source stores them in a float32 array).
\<close>

definition getSum :: "nat \<Rightarrow> nat \<Rightarrow> nat \<Rightarrow> bool ndarray \<Rightarrow> nat" where
  "getSum xlen ylen zlen a = length (filter (\<lambda>b. b) (crop_ravel a xlen ylen zlen))"

text \<open>\<open>range(0, int(width - siz) + 1, int(siz))\<close>.\<close>

definition box_range :: "nat \<Rightarrow> nat \<Rightarrow> nat list" where
  "box_range width siz =
     (if siz \<le> width then map (\<lambda>m. m * siz) [0..<(width - siz) div siz + 1] else [])"

text \<open>
  The body of the innermost loop: the cell becomes the disjunction of the eight cells
  at distance \<open>siz2\<close>, and is added to \<open>c_sum\<close>.
\<close>

definition reduce_cell :: "nat \<Rightarrow> nat list \<Rightarrow> bool ndarray \<times> nat \<Rightarrow> bool ndarray \<times> nat" where
  "reduce_cell siz2 ix st =
     (case ix of
        [i, j, k] \<Rightarrow>
          (let a = fst st;
               v = (elem a [i, j, k] \<or> elem a [i + siz2, j, k] \<or> elem a [i, j + siz2, k]
                    \<or> elem a [i + siz2, j + siz2, k] \<or> elem a [i, j, k + siz2]
                    \<or> elem a [i + siz2, j, k + siz2] \<or> elem a [i, j + siz2, k + siz2]
                    \<or> elem a [i + siz2, j + siz2, k + siz2])
           in (a\<lparr>elem := (elem a)([i, j, k] := v)\<rparr>, snd st + (if v then 1 else 0)))
      | _ \<Rightarrow> st)"

definition box_positions :: "nat \<Rightarrow> nat \<Rightarrow> nat list list" where
  "box_positions width siz =
     concat (map (\<lambda>i. concat (map (\<lambda>j. map (\<lambda>k. [i, j, k]) (box_range width siz))
       (box_range width siz))) (box_range width siz))"

text \<open>One round of \<open>for g in reverse_range\<close>: the array and \<open>n\<close> after it.\<close>

definition reduce_level ::
  "nat \<Rightarrow> nat \<Rightarrow> nat \<Rightarrow> bool ndarray \<times> nat list \<Rightarrow> bool ndarray \<times> nat list" where
  "reduce_level p width g st =
     (let siz = 2 ^ (p - g);
          siz2 = siz div 2;
          (a, c_sum) = fold (reduce_cell siz2) (box_positions width siz) (fst st, 0)
      in (a, (snd st)[length (snd st) - (g + 1) := c_sum]))"

definition computeFast ::
  "nat \<Rightarrow> nat \<Rightarrow> nat \<Rightarrow> bool ndarray \<Rightarrow> nat \<Rightarrow> nat \<Rightarrow> nat list \<Rightarrow> nat list
     \<Rightarrow> bool ndarray \<times> nat list" where
  "computeFast xlen ylen zlen c p width reverse_range n =
     fold (reduce_level p width) reverse_range (c, n[0 := getSum xlen ylen zlen c])"

text \<open>
  \<open>boxCountFunc(c, p, width)\<close> returns \<open>(n, r)\<close>. The array \<open>c\<close> is passed by reference
  and written in place, so the model also returns the array the caller holds afterwards.
\<close>

definition boxCountFunc ::
  "bool ndarray \<Rightarrow> nat \<Rightarrow> nat \<Rightarrow> pyerr + (nat list \<times> nat list) \<times> bool ndarray" where
  "boxCountFunc c p width =
     (let reverse_range = rev [0..<p];
          n = replicate (length reverse_range + 1) 0;
          r = map (\<lambda>e. 2 ^ e) [0..<p + 1]
      in case shape c of
           [xlen, ylen, zlen] \<Rightarrow>
             (let (c', n') = computeFast xlen ylen zlen c p width reverse_range n
              in Inr ((n', r), c'))
         | _ \<Rightarrow> Inl ValueError)"

section \<open>Notions used in the statements\<close>

text \<open>
  A cell of the cropped grid, as an index; the multi-index it is stored at; and a padded
  occupancy grid: its shape, and no true cell in the added layer.
\<close>

definition in_grid :: "nat \<Rightarrow> nat \<Rightarrow> nat \<Rightarrow> idx \<Rightarrow> bool" where
  "in_grid xlen ylen zlen p =
     (case p of (i, j, k) \<Rightarrow> 0 \<le> i \<and> i < int xlen \<and> 0 \<le> j \<and> j < int ylen \<and> 0 \<le> k \<and> k < int zlen)"

fun cell_of :: "idx \<Rightarrow> nat list" where
  "cell_of (i, j, k) = [nat i, nat j, nat k]"

definition padded :: "bool ndarray \<Rightarrow> nat \<Rightarrow> nat \<Rightarrow> nat \<Rightarrow> bool" where
  "padded c xlen ylen zlen =
     (shape c = [xlen + 1, ylen + 1, zlen + 1] \<and>
      (\<forall>i j k. elem c [i, j, k] \<longrightarrow> i < xlen \<and> j < ylen \<and> k < zlen))"

text \<open>The neighbour of a cell that a flag belongs to.\<close>

definition nbr :: "idx \<Rightarrow> flag \<Rightarrow> idx" where
  "nbr p f = add3 p (offset f)"

text \<open>What the labelling lemmas assume of a step.\<close>

definition step_ok :: "bool ndarray \<Rightarrow> nat \<Rightarrow> nat \<Rightarrow> nat \<Rightarrow> nat \<Rightarrow> idx \<Rightarrow> bool" where
  "step_ok c xlen ylen zlen s p =
     (padded c xlen ylen zlen \<and> in_grid xlen ylen zlen p \<and> 0 < s \<and> s < 2 ^ 32)"

definition shaped :: "nat ndarray \<Rightarrow> nat \<Rightarrow> nat \<Rightarrow> nat \<Rightarrow> bool" where
  "shaped L xlen ylen zlen = (shape L = [Suc xlen, Suc ylen, Suc zlen])"

text \<open>
  What is assumed of the table \<open>outliers\<close>, which is not part of the sources at hand: the
  corner lists it gives for a case number name corners that are set in that case number.
\<close>

definition table_ok :: "(nat \<Rightarrow> nat list list) \<Rightarrow> bool" where
  "table_ok outliers = (\<forall>code sub v. sub \<in> set (outliers code) \<longrightarrow> v \<in> set sub \<longrightarrow> bit code v)"

text \<open>The flag behind each corner of the eight sub-cubes (none for the cell itself).\<close>

definition cube_flags :: "flag option list list" where
  "cube_flags =
     [[Some F6, Some E9, Some C6, Some E12, None, Some F1, Some E2, Some F4],
      [Some E10, Some F6, Some E12, Some C8, Some F2, None, Some F4, Some E4],
      [Some C7, Some E11, Some F6, Some E10, Some E3, Some F3, None, Some F2],
      [Some E11, Some C5, Some E9, Some F6, Some F3, Some E1, Some F1, None],
      [None, Some F1, Some E2, Some F4, Some F5, Some E5, Some C2, Some E8],
      [Some F2, None, Some F4, Some E4, Some E6, Some F5, Some E8, Some C4],
      [Some E3, Some F3, None, Some F2, Some C3, Some E7, Some F5, Some E6],
      [Some F3, Some E1, Some F1, None, Some E7, Some C1, Some E5, Some F5]]"

text \<open>
  What holds of the state throughout the marching cubes extension of one step, with
  \<open>L\<close> the label grid before the step and \<open>FL\<close> the flags after the 26 guarded blocks.
\<close>

definition res_inv ::
  "bool ndarray \<Rightarrow> nat \<Rightarrow> nat \<Rightarrow> nat \<Rightarrow> nat \<Rightarrow> idx \<Rightarrow> nat ndarray \<Rightarrow> (flag \<Rightarrow> bool) \<Rightarrow> step_state
     \<Rightarrow> bool" where
  "res_inv c xlen ylen zlen s p L FL st =
     (shaped (grid st) xlen ylen zlen \<and> flags st = FL \<and>
      (\<forall>q. 0 < elem L q \<longrightarrow> elem (grid st) q = elem L q) \<and>
      (\<forall>q. elem (grid st) q \<noteq> elem L q \<longrightarrow>
           elem (grid st) q = s \<and> elem L q = 0 \<and> elem c q \<and>
           (\<exists>f. aux st (offset f) \<noteq> 0 \<and> q = cell_of (nbr p f))) \<and>
      (\<forall>f. aux st (offset f) \<noteq> 0 \<longrightarrow> FL f \<and> elem (grid st) (cell_of (nbr p f)) = s))"

text \<open>
  What one round of the \<open>while\<close> loop does to the label grid \<open>L\<close>: labels that were set
  stay; a cell that changes was unlabelled, is occupied, now carries the structure's
  label and is among the cells appended to \<open>_neighborVal\<close>; the appended cells are
  distinct cells of the cropped grid with these properties.
\<close>

definition step_post ::
  "bool ndarray \<Rightarrow> nat \<Rightarrow> nat \<Rightarrow> nat \<Rightarrow> nat \<Rightarrow> nat ndarray \<Rightarrow> nat ndarray \<Rightarrow> idx list \<Rightarrow> bool" where
  "step_post c xlen ylen zlen s L L' new =
     (shaped L' xlen ylen zlen \<and>
      (\<forall>q. 0 < elem L q \<longrightarrow> elem L' q = elem L q) \<and>
      (\<forall>q. elem L' q \<noteq> elem L q \<longrightarrow>
           elem L' q = s \<and> elem L q = 0 \<and> elem c q \<and> q \<in> cell_of ` set new) \<and>
      (\<forall>n\<in>set new. in_grid xlen ylen zlen n \<and> elem c (cell_of n) \<and> elem L (cell_of n) = 0 \<and>
           elem L' (cell_of n) = s) \<and>
      distinct (map cell_of new))"

text \<open>The occupied cells of the cropped grid that carry no label yet.\<close>

definition unlab :: "bool ndarray \<Rightarrow> nat \<Rightarrow> nat \<Rightarrow> nat \<Rightarrow> nat ndarray \<Rightarrow> idx set" where
  "unlab c xlen ylen zlen L =
     {p. in_grid xlen ylen zlen p \<and> elem c (cell_of p) \<and> elem L (cell_of p) = 0}"

text \<open>
  What the \<open>while\<close> loop has done when it ends, with \<open>L\<close> the label grid it started from,
  \<open>nv\<close> the final \<open>_neighborVal\<close> and \<open>k\<close> the value of \<open>_neighborCounter\<close> it started
  from. Without the marching cubes extension, every occupied neighbour of a cell taken
  from \<open>_neighborVal\<close> is labelled.
\<close>

definition grow_post ::
  "bool \<Rightarrow> bool ndarray \<Rightarrow> nat \<Rightarrow> nat \<Rightarrow> nat \<Rightarrow> nat \<Rightarrow> nat ndarray \<Rightarrow> nat ndarray \<Rightarrow> idx list \<Rightarrow> nat
     \<Rightarrow> bool" where
  "grow_post mc c xlen ylen zlen s L L' nv k =
     (shaped L' xlen ylen zlen \<and>
      (\<forall>q. 0 < elem L q \<longrightarrow> elem L' q = elem L q) \<and>
      (\<forall>q. elem L' q \<noteq> elem L q \<longrightarrow>
           elem L' q = s \<and> elem L q = 0 \<and> elem c q \<and> q \<in> cell_of ` set nv) \<and>
      (\<forall>n\<in>set nv. in_grid xlen ylen zlen n) \<and>
      (\<not> mc \<longrightarrow>
         (\<forall>i f. k \<le> i \<and> i < length nv \<and> in_grid xlen ylen zlen (nbr (nv ! i) f) \<and>
                elem c (cell_of (nbr (nv ! i) f)) \<longrightarrow>
                0 < elem L' (cell_of (nbr (nv ! i) f)))))"

text \<open>
  What the \<open>while\<close> loop has done for the structure that starts at the cell \<open>p0\<close>.
\<close>

definition struct_post ::
  "bool \<Rightarrow> bool ndarray \<Rightarrow> nat \<Rightarrow> nat \<Rightarrow> nat \<Rightarrow> nat \<Rightarrow> idx \<Rightarrow> nat ndarray \<Rightarrow> nat ndarray \<Rightarrow> idx list
     \<Rightarrow> bool" where
  "struct_post mc c xlen ylen zlen s p0 L L' nv =
     (shaped L' xlen ylen zlen \<and>
      (\<forall>q. 0 < elem L q \<longrightarrow> elem L' q = elem L q) \<and>
      (\<forall>q. elem L' q \<noteq> elem L q \<longrightarrow>
           elem L' q = s \<and> elem L q = 0 \<and> elem c q \<and> q \<in> cell_of ` set nv) \<and>
      (\<forall>n\<in>set nv. in_grid xlen ylen zlen n) \<and>
      (\<not> mc \<longrightarrow>
         (\<forall>p f. p \<in> insert p0 (set nv) \<and> in_grid xlen ylen zlen (nbr p f) \<and>
                elem c (cell_of (nbr p f)) \<longrightarrow>
                0 < elem L' (cell_of (nbr p f)))))"

text \<open>The flag of the opposite offset, and the indices the scan loops run through.\<close>

fun opposite :: "flag \<Rightarrow> flag" where
  "opposite F1 = F2" | "opposite F2 = F1" | "opposite F3 = F4" | "opposite F4 = F3"
| "opposite F5 = F6" | "opposite F6 = F5"
| "opposite E1 = E4" | "opposite E4 = E1" | "opposite E2 = E3" | "opposite E3 = E2"
| "opposite E5 = E10" | "opposite E10 = E5" | "opposite E6 = E9" | "opposite E9 = E6"
| "opposite E7 = E12" | "opposite E12 = E7" | "opposite E8 = E11" | "opposite E11 = E8"
| "opposite C1 = C8" | "opposite C8 = C1" | "opposite C2 = C7" | "opposite C7 = C2"
| "opposite C3 = C6" | "opposite C6 = C3" | "opposite C4 = C5" | "opposite C5 = C4"

definition in_box :: "nat \<Rightarrow> nat \<Rightarrow> nat \<Rightarrow> idx \<Rightarrow> bool" where
  "in_box xlen ylen zlen p =
     (case p of (i, j, k) \<Rightarrow> 0 \<le> i \<and> i \<le> int xlen \<and> 0 \<le> j \<and> j \<le> int ylen \<and> 0 \<le> k \<and> k \<le> int zlen)"

text \<open>
  What holds of the scan after the cells \<open>seen\<close>: the label grid has its shape; only
  occupied cells are labelled, with labels up to \<open>_structVal\<close>; every occupied cell seen
  is labelled; without the marching cubes extension, an occupied neighbour of a labelled
  cell has the same label; and every label up to \<open>_structVal\<close> has a first cell in scan
  order, before which only smaller labels occur.
\<close>

definition scan_inv ::
  "bool \<Rightarrow> bool ndarray \<Rightarrow> nat \<Rightarrow> nat \<Rightarrow> nat \<Rightarrow> scan_state \<Rightarrow> idx list \<Rightarrow> bool" where
  "scan_inv mc c xlen ylen zlen st seen =
     (shaped (labels st) xlen ylen zlen \<and>
      (\<forall>q. 0 < elem (labels st) q \<longrightarrow> elem c q \<and> elem (labels st) q \<le> structVal st) \<and>
      (\<forall>p\<in>set seen. in_grid xlen ylen zlen p \<and> elem c (cell_of p) \<longrightarrow>
           0 < elem (labels st) (cell_of p)) \<and>
      (\<not> mc \<longrightarrow>
         (\<forall>p f. in_grid xlen ylen zlen p \<and> 0 < elem (labels st) (cell_of p) \<and>
                in_grid xlen ylen zlen (nbr p f) \<and> elem c (cell_of (nbr p f)) \<longrightarrow>
                elem (labels st) (cell_of (nbr p f)) = elem (labels st) (cell_of p))) \<and>
      (\<forall>l. 0 < l \<and> l \<le> structVal st \<longrightarrow>
           (\<exists>m<length seen. elem (labels st) (cell_of (seen ! m)) = l \<and>
              (\<forall>m'<m. elem (labels st) (cell_of (seen ! m')) < l))))"

text \<open>
  A path of 26-connected occupied cells of the cropped occupancy grid: every cell is
  inside the grid and occupied, and each next cell is one of the 26 neighbours.
\<close>

definition occupied_cell :: "bool ndarray \<Rightarrow> nat \<Rightarrow> nat \<Rightarrow> nat \<Rightarrow> idx \<Rightarrow> bool" where
  "occupied_cell occ xlen ylen zlen p = (in_grid xlen ylen zlen p \<and> elem occ (cell_of p))"

fun path26 :: "bool ndarray \<Rightarrow> nat \<Rightarrow> nat \<Rightarrow> nat \<Rightarrow> idx list \<Rightarrow> bool" where
  "path26 occ xlen ylen zlen [] = True"
| "path26 occ xlen ylen zlen [p] = occupied_cell occ xlen ylen zlen p"
| "path26 occ xlen ylen zlen (p # q # ps) =
     (occupied_cell occ xlen ylen zlen p \<and> q \<in> set (map (nbr p) all_flags) \<and>
      path26 occ xlen ylen zlen (q # ps))"

text \<open>The labels in the order of the scan, and the place of the first cell with a label.\<close>

definition scan_labels :: "nat ndarray \<Rightarrow> nat \<Rightarrow> nat \<Rightarrow> nat \<Rightarrow> nat list" where
  "scan_labels L xlen ylen zlen =
     map (\<lambda>p. elem L (cell_of p)) (positions (xlen + 1) (ylen + 1) (zlen + 1))"

definition first_index :: "nat list \<Rightarrow> nat \<Rightarrow> nat" where
  "first_index xs l = length (takeWhile (\<lambda>x. x \<noteq> l) xs)"

text \<open>The multi-indices of the cropped grid in the order of \<open>ravel\<close>.\<close>

definition cells :: "nat \<Rightarrow> nat \<Rightarrow> nat \<Rightarrow> nat list list" where
  "cells xlen ylen zlen =
     concat (map (\<lambda>i. concat (map (\<lambda>j. map (\<lambda>k. [i, j, k]) [0..<zlen]) [0..<ylen])) [0..<xlen])"








text \<open>
  Whether the cube of side \<open>s\<close> at the multi-index \<open>ix\<close> holds a true cell of \<open>c\<close>, and
  the disjunction that the innermost loop of \<open>computeFast\<close> writes at \<open>ix\<close>.
\<close>

definition block_or :: "bool ndarray \<Rightarrow> nat \<Rightarrow> nat list \<Rightarrow> bool" where
  "block_or c s ix =
     (case ix of
        [i, j, k] \<Rightarrow> (\<exists>a\<in>{0..<s}. \<exists>b\<in>{0..<s}. \<exists>d\<in>{0..<s}. elem c [i + a, j + b, k + d])
      | _ \<Rightarrow> False)"

definition or8 :: "bool ndarray \<Rightarrow> nat \<Rightarrow> nat list \<Rightarrow> bool" where
  "or8 a siz2 ix =
     (case ix of
        [i, j, k] \<Rightarrow>
          (elem a [i, j, k] \<or> elem a [i + siz2, j, k] \<or> elem a [i, j + siz2, k]
           \<or> elem a [i + siz2, j + siz2, k] \<or> elem a [i, j, k + siz2]
           \<or> elem a [i + siz2, j, k + siz2] \<or> elem a [i, j + siz2, k + siz2]
           \<or> elem a [i + siz2, j + siz2, k + siz2])
      | _ \<Rightarrow> False)"

text \<open>A multi-index of three coordinates that are multiples of \<open>s\<close> and less than \<open>w\<close>.\<close>

definition aligned :: "nat \<Rightarrow> nat \<Rightarrow> nat list \<Rightarrow> bool" where
  "aligned w s ix = (length ix = 3 \<and> (\<forall>x\<in>set ix. x < w \<and> s dvd x))"

text \<open>
  The state of \<open>computeFast\<close> after the rounds for the box sizes 2, 4, \<open>\<dots>\<close>, \<open>2 ^ m\<close>, for
  the array \<open>c\<close> of shape \<open>(2 ^ p, 2 ^ p, 2 ^ p)\<close> it was called with: \<open>n[0]\<close> is the number
  of true cells of \<open>c\<close>, \<open>n[t]\<close> the number of boxes of side \<open>2 ^ t\<close> that hold a true cell
  of \<open>c\<close>, and the array holds, at each multi-index, the disjunction of \<open>c\<close> over the
  largest box visited so far that starts there.
\<close>

definition pyramid :: "nat \<Rightarrow> bool ndarray \<Rightarrow> nat \<Rightarrow> bool ndarray \<times> nat list \<Rightarrow> bool" where
  "pyramid p c m st =
     (shape (fst st) = shape c \<and> length (snd st) = p + 1 \<and>
      snd st ! 0 = getSum (2 ^ p) (2 ^ p) (2 ^ p) c \<and>
      (\<forall>t. 0 < t \<and> t \<le> m \<longrightarrow>
           snd st ! t = length (filter (block_or c (2 ^ t)) (box_positions (2 ^ p) (2 ^ t)))) \<and>
      (\<forall>q. aligned (2 ^ p) (2 ^ m) q \<longrightarrow> elem (fst st) q = block_or c (2 ^ m) q) \<and>
      (\<forall>t<m. \<forall>q. aligned (2 ^ p) (2 ^ t) q \<and> \<not> aligned (2 ^ p) (2 ^ (t + 1)) q \<longrightarrow>
           elem (fst st) q = block_or c (2 ^ t) q) \<and>
      (\<forall>q. \<not> aligned (2 ^ p) 1 q \<longrightarrow> elem (fst st) q = elem c q))"

section \<open>Properties\<close>

text \<open>
  C9. For every scalar field and every threshold \<open>t\<close>, a cell of the occupancy grid is
  \<open>value > t\<close> when \<open>t > 0\<close> and \<open>value < t\<close> otherwise, with the comparisons of floating
  point numbers (false on NaN); the occupancy grid is a new array of the same shape, and
  the field that was read is the same array after the computation as before.
\<close>

theorem threshold_rule:
  "shape (threshold t c) = shape c \<and>
   elem (threshold t c) ix =
     (if fgt t (Num 0) then fgt (as_float (elem c ix)) t else flt (as_float (elem c ix)) t) \<and>
   (\<forall>x y. elem c ix = FloatV (Num x) \<and> t = Num y \<longrightarrow>
      elem (threshold t c) ix = (if y > 0 then x > y else x < y))"
  by (simp add: threshold_def occupied_def)

theorem threshold_rule_witness:
  "elem (threshold (Num 2) (from_list [FloatV (Num 5), FloatV (Num 1)])) [0] = True \<and>
   elem (threshold (Num 2) (from_list [FloatV (Num 5), FloatV (Num 1)])) [1] = False \<and>
   elem (threshold (Num (- 2)) (from_list [FloatV (Num (- 5)), FloatV (Num 1)])) [0] = True"
  using threshold_rule [of "Num 2" "from_list [FloatV (Num 5), FloatV (Num 1)]" "[0]"]
    threshold_rule [of "Num 2" "from_list [FloatV (Num 5), FloatV (Num 1)]" "[1]"]
    threshold_rule [of "Num (- 2)" "from_list [FloatV (Num (- 5)), FloatV (Num 1)]" "[0]"]
  by (simp add: from_list_def)

lemma offset_range: "offset f = (a, b, c) \<Longrightarrow> - 1 \<le> a \<and> a \<le> 1 \<and> - 1 \<le> b \<and> b \<le> 1 \<and> - 1 \<le> c \<and> c \<le> 1"
  by (cases f) auto

lemma offset_inj: "offset f = offset g \<Longrightarrow> f = g"
  by (cases f; cases g; simp)

lemma norm_axis_near: "- 1 \<le> i \<Longrightarrow> i \<le> int n \<Longrightarrow> norm_axis (Suc n) i = Inr (if i < 0 then n else nat i)"
  by (auto simp add: norm_axis_def Let_def)

lemma norm3_near:
  assumes "in_grid xlen ylen zlen p" "add3 p (offset f) = (i, j, k)"
  shows "norm3 [Suc xlen, Suc ylen, Suc zlen] (i, j, k) =
           Inr [if i < 0 then xlen else nat i, if j < 0 then ylen else nat j, if k < 0 then zlen else nat k]"
proof -
  obtain a b c where o: "offset f = (a, b, c)" by (cases "offset f") auto
  obtain pi pj pk where p: "p = (pi, pj, pk)" by (cases p) auto
  from offset_range[OF o] assms p o
  have "- 1 \<le> i \<and> i \<le> int xlen \<and> - 1 \<le> j \<and> j \<le> int ylen \<and> - 1 \<le> k \<and> k \<le> int zlen"
    by (auto simp add: in_grid_def)
  then show ?thesis by (simp add: norm_axis_near)
qed

lemma get3_near:
  assumes "padded c xlen ylen zlen" "in_grid xlen ylen zlen p"
  shows "get3 c (add3 p (offset f)) =
     Inr (in_grid xlen ylen zlen (add3 p (offset f)) \<and> elem c (cell_of (add3 p (offset f))))"
proof -
  obtain i j k where q: "add3 p (offset f) = (i, j, k)" by (cases "add3 p (offset f)") auto
  have sh: "shape c = [Suc xlen, Suc ylen, Suc zlen]" using assms(1) by (simp add: padded_def)
  have pd: "\<And>a b d. elem c [a, b, d] \<Longrightarrow> a < xlen \<and> b < ylen \<and> d < zlen"
    using assms(1) by (simp add: padded_def)
  show ?thesis
    unfolding q get3_def sh norm3_near[OF assms(2) q]
    using pd[of "if i < 0 then xlen else nat i" "if j < 0 then ylen else nat j" "if k < 0 then zlen else nat k"]
    by (auto simp add: in_grid_def)
qed

lemma norm3_in_grid:
  "in_grid xlen ylen zlen q \<Longrightarrow> norm3 [Suc xlen, Suc ylen, Suc zlen] q = Inr (cell_of q)"
  by (cases q) (auto simp add: in_grid_def norm_axis_def Let_def)

lemma try_link_simp:
  assumes "padded c xlen ylen zlen" "in_grid xlen ylen zlen p" "shape (grid st) = [Suc xlen, Suc ylen, Suc zlen]"
  shows "try_link c s p f st =
     (let q = add3 p (offset f) in
      if in_grid xlen ylen zlen q \<and> elem c (cell_of q) \<and> elem (grid st) (cell_of q) = 0
      then st\<lparr>grid := (grid st)\<lparr>elem := (elem (grid st))(cell_of q := s mod 2 ^ 32)\<rparr>,
              aux := (aux st)(offset f := (if f = E5 then s else 1)),
              flags := (flags st)(f := True)\<rparr>
      else st)"
  unfolding try_link_def Let_def get3_near[OF assms(1,2)]
  by (auto simp add: get3_def set3_def assms(3) norm3_in_grid)

lemma nbr_inj: "nbr p f = nbr p g \<Longrightarrow> f = g"
  by (cases p; cases "offset f"; cases "offset g") (auto simp add: nbr_def intro: offset_inj)

lemma cell_of_inj:
  "in_grid xlen ylen zlen q \<Longrightarrow> in_grid xlen ylen zlen r \<Longrightarrow> cell_of q = cell_of r \<Longrightarrow> q = r"
  by (cases q; cases r) (auto simp add: in_grid_def)

lemma try_link_cases:
  assumes "step_ok c xlen ylen zlen s p" "shaped (grid st) xlen ylen zlen"
  shows "(in_grid xlen ylen zlen (nbr p f) \<and> elem c (cell_of (nbr p f)) \<and>
            elem (grid st) (cell_of (nbr p f)) = 0 \<and>
          try_link c s p f st =
            st\<lparr>grid := (grid st)\<lparr>elem := (elem (grid st))(cell_of (nbr p f) := s)\<rparr>,
               aux := (aux st)(offset f := (if f = E5 then s else 1)),
               flags := (flags st)(f := True)\<rparr>) \<or>
         (\<not> (in_grid xlen ylen zlen (nbr p f) \<and> elem c (cell_of (nbr p f)) \<and>
            elem (grid st) (cell_of (nbr p f)) = 0) \<and> try_link c s p f st = st)"
proof -
  from assms have a: "padded c xlen ylen zlen" "in_grid xlen ylen zlen p"
    "shape (grid st) = [Suc xlen, Suc ylen, Suc zlen]" "s mod 2 ^ 32 = s"
    by (simp_all add: step_ok_def shaped_def)
  show ?thesis
    unfolding try_link_simp[OF a(1,2,3)] nbr_def Let_def a(4) by simp
qed

lemma try_link_shaped:
  assumes "step_ok c xlen ylen zlen s p" "shaped (grid st) xlen ylen zlen"
  shows "shaped (grid (try_link c s p f st)) xlen ylen zlen"
  using try_link_cases[OF assms, of f] assms(2) by (auto simp add: shaped_def)

lemma fold_link_shaped:
  assumes "step_ok c xlen ylen zlen s p"
  shows "shaped (grid st) xlen ylen zlen \<Longrightarrow> shaped (grid (fold (try_link c s p) fs st)) xlen ylen zlen"
  by (induction fs arbitrary: st) (simp_all add: try_link_shaped[OF assms])

lemma try_link_keep:
  assumes "step_ok c xlen ylen zlen s p" "shaped (grid st) xlen ylen zlen" "0 < elem (grid st) q"
  shows "elem (grid (try_link c s p f st)) q = elem (grid st) q"
  using try_link_cases[OF assms(1,2), of f] assms(3) by auto

lemma fold_link_keep:
  assumes "step_ok c xlen ylen zlen s p"
  shows "shaped (grid st) xlen ylen zlen \<Longrightarrow> 0 < elem (grid st) q \<Longrightarrow>
         elem (grid (fold (try_link c s p) fs st)) q = elem (grid st) q"
proof (induction fs arbitrary: st)
  case Nil
  then show ?case by simp
next
  case (Cons f fs)
  have "elem (grid (fold (try_link c s p) fs (try_link c s p f st))) q = elem (grid (try_link c s p f st)) q"
    using Cons.IH[OF try_link_shaped[OF assms Cons.prems(1)]] try_link_keep[OF assms Cons.prems] Cons.prems(2)
    by simp
  then show ?case using try_link_keep[OF assms Cons.prems] by simp
qed

lemma try_link_change:
  assumes "step_ok c xlen ylen zlen s p" "shaped (grid st) xlen ylen zlen"
    "elem (grid (try_link c s p f st)) q \<noteq> elem (grid st) q"
  shows "elem (grid (try_link c s p f st)) q = s \<and> elem (grid st) q = 0 \<and> elem c q \<and>
         q = cell_of (nbr p f) \<and> in_grid xlen ylen zlen (nbr p f)"
  using try_link_cases[OF assms(1,2), of f] assms(3) by (auto split: if_splits)

lemma fold_link_change:
  assumes "step_ok c xlen ylen zlen s p"
  shows "shaped (grid st) xlen ylen zlen \<Longrightarrow>
         elem (grid (fold (try_link c s p) fs st)) q \<noteq> elem (grid st) q \<Longrightarrow>
         elem (grid (fold (try_link c s p) fs st)) q = s \<and> elem (grid st) q = 0 \<and> elem c q \<and>
         (\<exists>f\<in>set fs. q = cell_of (nbr p f) \<and> in_grid xlen ylen zlen (nbr p f))"
proof (induction fs arbitrary: st)
  case Nil
  then show ?case by simp
next
  case (Cons f fs)
  let ?st1 = "try_link c s p f st"
  have sh1: "shaped (grid ?st1) xlen ylen zlen" by (rule try_link_shaped[OF assms Cons.prems(1)])
  have s0: "0 < s" using assms by (simp add: step_ok_def)
  show ?case
  proof (cases "elem (grid ?st1) q = elem (grid st) q")
    case True
    with Cons.prems(2) have "elem (grid (fold (try_link c s p) fs ?st1)) q \<noteq> elem (grid ?st1) q" by simp
    from Cons.IH[OF sh1 this] True show ?thesis by auto
  next
    case False
    from try_link_change[OF assms Cons.prems(1) False]
    have ch: "elem (grid ?st1) q = s" "elem (grid st) q = 0" "elem c q"
      "q = cell_of (nbr p f)" "in_grid xlen ylen zlen (nbr p f)" by auto
    have "elem (grid (fold (try_link c s p) fs ?st1)) q = elem (grid ?st1) q"
      using fold_link_keep[OF assms sh1, of q fs] ch(1) s0 by simp
    with ch show ?thesis by auto
  qed
qed

lemma try_link_E:
  assumes "step_ok c xlen ylen zlen s p" "shaped (grid st) xlen ylen zlen"
  obtains (link) "in_grid xlen ylen zlen (nbr p f)" "elem c (cell_of (nbr p f))"
      "elem (grid st) (cell_of (nbr p f)) = 0"
      "grid (try_link c s p f st) = (grid st)\<lparr>elem := (elem (grid st))(cell_of (nbr p f) := s)\<rparr>"
      "aux (try_link c s p f st) = (aux st)(offset f := (if f = E5 then s else 1))"
      "flags (try_link c s p f st) = (flags st)(f := True)"
  | (skip) "\<not> (in_grid xlen ylen zlen (nbr p f) \<and> elem c (cell_of (nbr p f)) \<and>
            elem (grid st) (cell_of (nbr p f)) = 0)" "try_link c s p f st = st"
  using try_link_cases[OF assms, of f] by auto

lemma try_link_flags:
  assumes "step_ok c xlen ylen zlen s p" "shaped (grid st) xlen ylen zlen"
  shows "flags (try_link c s p f st) g =
           (flags st g \<or> (g = f \<and> in_grid xlen ylen zlen (nbr p f) \<and> elem c (cell_of (nbr p f)) \<and>
              elem (grid st) (cell_of (nbr p f)) = 0))"
proof (cases rule: try_link_E[OF assms, of f])
  case link: 1
  then show ?thesis by simp
next
  case skip: 2
  then show ?thesis by auto
qed

lemma try_link_flag_new:
  assumes "step_ok c xlen ylen zlen s p" "shaped (grid st) xlen ylen zlen"
    "flags (try_link c s p f st) g" "\<not> flags st g"
  shows "in_grid xlen ylen zlen (nbr p g) \<and> elem c (cell_of (nbr p g)) \<and>
         elem (grid st) (cell_of (nbr p g)) = 0 \<and> elem (grid (try_link c s p f st)) (cell_of (nbr p g)) = s"
proof (cases rule: try_link_E[OF assms(1,2), of f])
  case link: 1
  from assms(3,4) link(6) have "g = f" by (simp split: if_splits)
  with link show ?thesis by simp
next
  case skip: 2
  with assms(3,4) show ?thesis by simp
qed

lemma fold_link_flags_mono:
  assumes "step_ok c xlen ylen zlen s p"
  shows "shaped (grid st) xlen ylen zlen \<Longrightarrow> flags st g \<Longrightarrow> flags (fold (try_link c s p) fs st) g"
proof (induction fs arbitrary: st)
  case Nil
  then show ?case by simp
next
  case (Cons f fs)
  show ?case
    using Cons.IH[OF try_link_shaped[OF assms Cons.prems(1)]] try_link_flags[OF assms Cons.prems(1)] Cons.prems(2)
    by simp
qed

lemma fold_link_flag_new:
  assumes "step_ok c xlen ylen zlen s p"
  shows "shaped (grid st) xlen ylen zlen \<Longrightarrow> flags (fold (try_link c s p) fs st) g \<Longrightarrow> \<not> flags st g \<Longrightarrow>
         in_grid xlen ylen zlen (nbr p g) \<and> elem c (cell_of (nbr p g)) \<and>
         elem (grid st) (cell_of (nbr p g)) = 0 \<and>
         elem (grid (fold (try_link c s p) fs st)) (cell_of (nbr p g)) = s"
proof (induction fs arbitrary: st)
  case Nil
  then show ?case by simp
next
  case (Cons f fs)
  let ?st1 = "try_link c s p f st"
  have sh1: "shaped (grid ?st1) xlen ylen zlen" by (rule try_link_shaped[OF assms Cons.prems(1)])
  have s0: "0 < s" using assms by (simp add: step_ok_def)
  show ?case
  proof (cases "flags ?st1 g")
    case True
    from try_link_flag_new[OF assms Cons.prems(1) True Cons.prems(3)]
    have n: "in_grid xlen ylen zlen (nbr p g)" "elem c (cell_of (nbr p g))"
      "elem (grid st) (cell_of (nbr p g)) = 0" "elem (grid ?st1) (cell_of (nbr p g)) = s" by auto
    have "elem (grid (fold (try_link c s p) fs ?st1)) (cell_of (nbr p g)) = s"
      using fold_link_keep[OF assms sh1, of "cell_of (nbr p g)" fs] n(4) s0 by simp
    with n show ?thesis by simp
  next
    case False
    from Cons.prems(2) have "flags (fold (try_link c s p) fs ?st1) g" by simp
    from Cons.IH[OF sh1 this False]
    have n: "in_grid xlen ylen zlen (nbr p g)" "elem c (cell_of (nbr p g))"
      "elem (grid ?st1) (cell_of (nbr p g)) = 0"
      "elem (grid (fold (try_link c s p) fs ?st1)) (cell_of (nbr p g)) = s" by auto
    have "elem (grid st) (cell_of (nbr p g)) = 0"
    proof (rule ccontr)
      assume "elem (grid st) (cell_of (nbr p g)) \<noteq> 0"
      then have "0 < elem (grid st) (cell_of (nbr p g))" by simp
      from try_link_keep[OF assms Cons.prems(1) this, of f] this n(3) show False by simp
    qed
    with n show ?thesis by simp
  qed
qed

lemma try_link_aux:
  assumes "step_ok c xlen ylen zlen s p" "shaped (grid st) xlen ylen zlen"
    "\<forall>g. (aux st (offset g) \<noteq> 0) = flags st g"
  shows "(aux (try_link c s p f st) (offset g) \<noteq> 0) = flags (try_link c s p f st) g"
proof (cases rule: try_link_E[OF assms(1,2), of f])
  case link: 1
  have s0: "0 < s" using assms by (simp add: step_ok_def)
  show ?thesis
  proof (cases "g = f")
    case True
    with link s0 show ?thesis by simp
  next
    case False
    then have "offset g \<noteq> offset f" using offset_inj by blast
    with link False assms(3) show ?thesis by simp
  qed
next
  case skip: 2
  with assms(3) show ?thesis by simp
qed

lemma fold_link_aux:
  assumes "step_ok c xlen ylen zlen s p"
  shows "shaped (grid st) xlen ylen zlen \<Longrightarrow> \<forall>g. (aux st (offset g) \<noteq> 0) = flags st g \<Longrightarrow>
         (aux (fold (try_link c s p) fs st) (offset g) \<noteq> 0) = flags (fold (try_link c s p) fs st) g"
proof (induction fs arbitrary: st)
  case Nil
  then show ?case by simp
next
  case (Cons f fs)
  have "\<forall>g. (aux (try_link c s p f st) (offset g) \<noteq> 0) = flags (try_link c s p f st) g"
    using try_link_aux[OF assms Cons.prems] by blast
  from Cons.IH[OF try_link_shaped[OF assms Cons.prems(1)] this] show ?case by simp
qed

lemma try_link_done:
  assumes "step_ok c xlen ylen zlen s p" "shaped (grid st) xlen ylen zlen"
    "in_grid xlen ylen zlen (nbr p f)" "elem c (cell_of (nbr p f))"
  shows "0 < elem (grid (try_link c s p f st)) (cell_of (nbr p f))"
proof (cases rule: try_link_E[OF assms(1,2), of f])
  case link: 1
  have s0: "0 < s" using assms by (simp add: step_ok_def)
  with link show ?thesis by simp
next
  case skip: 2
  with assms(3,4) show ?thesis by simp
qed

lemma fold_link_done:
  assumes "step_ok c xlen ylen zlen s p"
  shows "shaped (grid st) xlen ylen zlen \<Longrightarrow> f \<in> set fs \<Longrightarrow>
         in_grid xlen ylen zlen (nbr p f) \<Longrightarrow> elem c (cell_of (nbr p f)) \<Longrightarrow>
         0 < elem (grid (fold (try_link c s p) fs st)) (cell_of (nbr p f))"
proof (induction fs arbitrary: st)
  case Nil
  then show ?case by simp
next
  case (Cons g fs)
  let ?st1 = "try_link c s p g st"
  have sh1: "shaped (grid ?st1) xlen ylen zlen" by (rule try_link_shaped[OF assms Cons.prems(1)])
  show ?case
  proof (cases "f = g")
    case True
    have "0 < elem (grid ?st1) (cell_of (nbr p f))"
      using try_link_done[OF assms Cons.prems(1)] Cons.prems(3,4) True by simp
    then show ?thesis using fold_link_keep[OF assms sh1, of "cell_of (nbr p f)" fs] by simp
  next
    case False
    with Cons.prems(2) have "f \<in> set fs" by simp
    from Cons.IH[OF sh1 this Cons.prems(3,4)] show ?thesis by simp
  qed
qed

lemma all_flags_complete: "f \<in> set all_flags"
  by (cases f) (simp_all add: all_flags_def)

lemma distinct_all_flags: "distinct all_flags"
  by (simp add: all_flags_def)

lemma fold_link_change_flag:
  assumes "step_ok c xlen ylen zlen s p"
  shows "shaped (grid st) xlen ylen zlen \<Longrightarrow>
         elem (grid (fold (try_link c s p) fs st)) q \<noteq> elem (grid st) q \<Longrightarrow>
         \<exists>f. q = cell_of (nbr p f) \<and> in_grid xlen ylen zlen (nbr p f) \<and>
             flags (fold (try_link c s p) fs st) f"
proof (induction fs arbitrary: st)
  case Nil
  then show ?case by simp
next
  case (Cons f fs)
  let ?st1 = "try_link c s p f st"
  have sh1: "shaped (grid ?st1) xlen ylen zlen" by (rule try_link_shaped[OF assms Cons.prems(1)])
  show ?case
  proof (cases "elem (grid ?st1) q = elem (grid st) q")
    case True
    with Cons.prems(2) have "elem (grid (fold (try_link c s p) fs ?st1)) q \<noteq> elem (grid ?st1) q" by simp
    from Cons.IH[OF sh1 this] show ?thesis by simp
  next
    case False
    from try_link_change[OF assms Cons.prems(1) False]
    have ch: "q = cell_of (nbr p f)" "in_grid xlen ylen zlen (nbr p f)" "elem c q" "elem (grid st) q = 0" by auto
    have "flags ?st1 f" using try_link_flags[OF assms Cons.prems(1), of f f] ch by simp
    then have "flags (fold (try_link c s p) fs ?st1) f" by (rule fold_link_flags_mono[OF assms sh1])
    with ch show ?thesis by auto
  qed
qed

text \<open>The state after the 26 guarded blocks.\<close>

lemma link_all_props:
  assumes "step_ok c xlen ylen zlen s p" "shaped L xlen ylen zlen"
  defines "st \<equiv> link_all c s p L"
  shows "shaped (grid st) xlen ylen zlen"
    and "\<And>q. 0 < elem L q \<Longrightarrow> elem (grid st) q = elem L q"
    and "\<And>q. elem (grid st) q \<noteq> elem L q \<Longrightarrow>
           elem (grid st) q = s \<and> elem L q = 0 \<and> elem c q \<and>
           (\<exists>f. q = cell_of (nbr p f) \<and> in_grid xlen ylen zlen (nbr p f) \<and> flags st f)"
    and "\<And>f. flags st f \<Longrightarrow> in_grid xlen ylen zlen (nbr p f) \<and> elem c (cell_of (nbr p f)) \<and>
           elem L (cell_of (nbr p f)) = 0 \<and> elem (grid st) (cell_of (nbr p f)) = s"
    and "\<And>f. (aux st (offset f) \<noteq> 0) = flags st f"
    and "\<And>f. in_grid xlen ylen zlen (nbr p f) \<Longrightarrow> elem c (cell_of (nbr p f)) \<Longrightarrow>
           0 < elem (grid st) (cell_of (nbr p f))"
proof -
  let ?st0 = "\<lparr>grid = L, aux = (\<lambda>_. 0), flags = (\<lambda>_. False)\<rparr>"
  have sh0: "shaped (grid ?st0) xlen ylen zlen" using assms(2) by simp
  have st: "st = fold (try_link c s p) all_flags ?st0" by (simp add: st_def link_all_def)
  show "shaped (grid st) xlen ylen zlen"
    unfolding st by (rule fold_link_shaped[OF assms(1) sh0])
  show "\<And>q. 0 < elem L q \<Longrightarrow> elem (grid st) q = elem L q"
    unfolding st using fold_link_keep[OF assms(1) sh0] by simp
  show "\<And>q. elem (grid st) q \<noteq> elem L q \<Longrightarrow>
           elem (grid st) q = s \<and> elem L q = 0 \<and> elem c q \<and>
           (\<exists>f. q = cell_of (nbr p f) \<and> in_grid xlen ylen zlen (nbr p f) \<and> flags st f)"
    unfolding st using fold_link_change[OF assms(1) sh0] fold_link_change_flag[OF assms(1) sh0]
    by simp
  show "\<And>f. flags st f \<Longrightarrow> in_grid xlen ylen zlen (nbr p f) \<and> elem c (cell_of (nbr p f)) \<and>
           elem L (cell_of (nbr p f)) = 0 \<and> elem (grid st) (cell_of (nbr p f)) = s"
    unfolding st using fold_link_flag_new[OF assms(1) sh0] by simp
  show "\<And>f. (aux st (offset f) \<noteq> 0) = flags st f"
    unfolding st using fold_link_aux[OF assms(1) sh0] by simp
  show "\<And>f. in_grid xlen ylen zlen (nbr p f) \<Longrightarrow> elem c (cell_of (nbr p f)) \<Longrightarrow>
           0 < elem (grid st) (cell_of (nbr p f))"
    unfolding st using fold_link_done[OF assms(1) sh0 all_flags_complete] by simp
qed

lemma less8: "(n::nat) < 8 \<Longrightarrow> n \<in> set [0, 1, 2, 3, 4, 5, 6, 7]"
  by auto

lemma cubes_cube_flags:
  "cubes fl = map (map (\<lambda>x. case x of None \<Rightarrow> True | Some f \<Rightarrow> fl f)) cube_flags"
  by (simp add: cubes_def cube_flags_def)

lemma remove_table_cube_flags:
  assumes "ii < 8" "v < 8"
  shows "map_of (remove_table ! ii) v = map_option offset (cube_flags ! ii ! v)"
  using less8[OF assms(1)] less8[OF assms(2)]
  by (simp only: set_simps, elim insertE emptyE; simp add: remove_table_def cube_flags_def)

lemma remove_table_outside:
  assumes "ii < 8" "\<not> v < 8"
  shows "map_of (remove_table ! ii) v = None"
  using less8[OF assms(1)] assms(2)
  by (simp only: set_simps, elim insertE emptyE; simp add: remove_table_def)

lemma cube_flags_anchor:
  assumes "ii < 8" "v < 8"
  shows "(cube_flags ! ii ! v = None) = (v = anchor ii)"
  using less8[OF assms(1)] less8[OF assms(2)]
  by (simp only: set_simps, elim insertE emptyE; simp add: cube_flags_def anchor_def)

lemma find_case_number_horner:
  "find_case_number [b0, b1, b2, b3, b4, b5, b6, b7] =
     horner_sum of_bool 2 [b0, b1, b2, b3, b4, b5, b6, b7]"
  by (simp add: find_case_number_def upt_rec)

lemma list8: "length xs = 8 \<Longrightarrow> \<exists>b0 b1 b2 b3 b4 b5 b6 b7. xs = [b0, b1, b2, b3, b4, b5, b6, b7]"
  by (auto simp add: length_Suc_conv numeral_eq_Suc)

lemma bit_find_case_number:
  assumes "length cube = 8" "v < 8"
  shows "bit (find_case_number cube) v = cube ! v"
proof -
  from list8[OF assms(1)] obtain b0 b1 b2 b3 b4 b5 b6 b7
    where c: "cube = [b0, b1, b2, b3, b4, b5, b6, b7]" by blast
  have "bit (horner_sum of_bool (2::nat) cube) v = (v < length cube \<and> cube ! v)"
    by (simp add: bit_horner_sum_bit_iff)
  then show ?thesis using assms unfolding c find_case_number_horner by simp
qed

lemma length_cubes: "length (cubes fl) = 8" "ii < 8 \<Longrightarrow> length (cubes fl ! ii) = 8"
  using less8[of ii] by (auto simp add: cubes_def)

lemma fold_err_inv:
  assumes "\<And>x s. x \<in> set xs \<Longrightarrow> I s \<Longrightarrow> \<exists>s'. f x s = Inr s' \<and> I s'" "I s"
  shows "\<exists>s'. fold_err f xs s = Inr s' \<and> I s'"
  using assms
proof (induction xs arbitrary: s)
  case Nil
  then show ?case by simp
next
  case (Cons x xs)
  from Cons.prems(1)[of x s] Cons.prems(2) obtain s1 where s1: "f x s = Inr s1" "I s1" by auto
  have "\<exists>s'. fold_err f xs s1 = Inr s' \<and> I s'"
    by (rule Cons.IH) (use Cons.prems(1) s1 in auto)
  with s1 show ?case by simp
qed

lemma reset_inv:
  assumes fl: "\<And>f. FL f \<Longrightarrow> in_grid xlen ylen zlen (nbr p f) \<and> elem c (cell_of (nbr p f)) \<and>
                 elem L (cell_of (nbr p f)) = 0"
    and inv: "res_inv c xlen ylen zlen s p L FL st"
    and F: "FL F"
  shows "\<exists>st'. (case set3 (grid st) (add3 p (offset F)) 0 of
                  Inl e \<Rightarrow> Inl e
                | Inr g \<Rightarrow> Inr (st\<lparr>grid := g, aux := (aux st)(offset F := 0)\<rparr>)) = Inr st' \<and>
               res_inv c xlen ylen zlen s p L FL st'"
proof -
  let ?cF = "cell_of (nbr p F)"
  let ?st' = "st\<lparr>grid := (grid st)\<lparr>elem := (elem (grid st))(?cF := 0)\<rparr>, aux := (aux st)(offset F := 0)\<rparr>"
  from inv have sh: "shape (grid st) = [Suc xlen, Suc ylen, Suc zlen]"
    by (simp add: res_inv_def shaped_def)
  from fl[OF F] have gF: "in_grid xlen ylen zlen (nbr p F)" and LF: "elem L ?cF = 0" by auto
  have set: "set3 (grid st) (add3 p (offset F)) 0 = Inr ((grid st)\<lparr>elem := (elem (grid st))(?cF := 0)\<rparr>)"
    using norm3_in_grid[OF gF] by (simp add: set3_def sh nbr_def)
  have other: "cell_of (nbr p f) \<noteq> ?cF" if "FL f" "f \<noteq> F" for f
  proof
    assume "cell_of (nbr p f) = ?cF"
    with fl[OF that(1)] gF have "nbr p f = nbr p F" by (auto dest: cell_of_inj)
    with that(2) show False by (auto dest: nbr_inj)
  qed
  have "res_inv c xlen ylen zlen s p L FL ?st'"
    unfolding res_inv_def
  proof (intro conjI allI impI)
    show "shaped (grid ?st') xlen ylen zlen" using sh by (simp add: shaped_def)
    show "flags ?st' = FL" using inv by (simp add: res_inv_def)
  next
    fix q assume "0 < elem L q"
    then have "q \<noteq> ?cF" using LF by auto
    then show "elem (grid ?st') q = elem L q"
      using inv \<open>0 < elem L q\<close> by (simp add: res_inv_def)
  next
    fix q assume ch: "elem (grid ?st') q \<noteq> elem L q"
    then have ne: "q \<noteq> ?cF" using LF by auto
    with ch have ch0: "elem (grid st) q \<noteq> elem L q" by simp
    with inv obtain f where f: "elem (grid st) q = s" "elem L q = 0" "elem c q"
      "aux st (offset f) \<noteq> 0" "q = cell_of (nbr p f)"
      unfolding res_inv_def by blast
    from f(5) ne have "f \<noteq> F" by auto
    then have "offset f \<noteq> offset F" using offset_inj by blast
    with f ne have "aux ?st' (offset f) \<noteq> 0 \<and> q = cell_of (nbr p f)" by simp
    then have ex: "\<exists>f. aux ?st' (offset f) \<noteq> 0 \<and> q = cell_of (nbr p f)" by blast
    from f ne show "elem (grid ?st') q = s" by simp
    from f show "elem L q = 0" by simp
    from f show "elem c q" by simp
    from ex show "\<exists>f. aux ?st' (offset f) \<noteq> 0 \<and> q = cell_of (nbr p f)" .
  next
    fix f assume a: "aux ?st' (offset f) \<noteq> 0"
    then have fF: "f \<noteq> F" by auto
    then have "offset f \<noteq> offset F" using offset_inj by blast
    with a have "aux st (offset f) \<noteq> 0" by simp
    with inv have g: "FL f" "elem (grid st) (cell_of (nbr p f)) = s"
      unfolding res_inv_def by blast+
    from g show "FL f" by simp
    from other[OF g(1) fF] g(2) show "elem (grid ?st') (cell_of (nbr p f)) = s" by simp
  qed
  with set show ?thesis by simp
qed

lemma length_cube_flags: "length cube_flags = 8" "ii < 8 \<Longrightarrow> length (cube_flags ! ii) = 8"
  using less8[of ii] by (auto simp add: cube_flags_def)

lemma cubes_nth:
  assumes "ii < 8" "v < 8"
  shows "cubes fl ! ii ! v = (case cube_flags ! ii ! v of None \<Rightarrow> True | Some f \<Rightarrow> fl f)"
  unfolding cubes_cube_flags using assms length_cube_flags by simp

lemma reset_val_inv:
  assumes fl: "\<And>f. FL f \<Longrightarrow> in_grid xlen ylen zlen (nbr p f) \<and> elem c (cell_of (nbr p f)) \<and>
                 elem L (cell_of (nbr p f)) = 0"
    and inv: "res_inv c xlen ylen zlen s p L FL st"
    and ii: "ii < 8"
    and v: "v < 8 \<Longrightarrow> v \<noteq> anchor ii \<Longrightarrow> cubes FL ! ii ! v"
  shows "\<exists>st'. reset_val p ii v st = Inr st' \<and> res_inv c xlen ylen zlen s p L FL st'"
proof (cases "v < 8")
  case False
  then show ?thesis using inv remove_table_outside[OF ii False] by (simp add: reset_val_def)
next
  case True
  note tab = remove_table_cube_flags[OF ii True]
  show ?thesis
  proof (cases "cube_flags ! ii ! v")
    case None
    then show ?thesis using inv tab by (simp add: reset_val_def)
  next
    case (Some F)
    then have "v \<noteq> anchor ii" using cube_flags_anchor[OF ii True] by simp
    from v[OF True this] have "FL F" using cubes_nth[OF ii True, of FL] Some by simp
    from reset_inv[OF fl inv this] show ?thesis using tab Some by (simp add: reset_val_def)
  qed
qed

lemma resolve_subset_inv:
  assumes fl: "\<And>f. FL f \<Longrightarrow> in_grid xlen ylen zlen (nbr p f) \<and> elem c (cell_of (nbr p f)) \<and>
                 elem L (cell_of (nbr p f)) = 0"
    and inv: "res_inv c xlen ylen zlen s p L FL st"
    and ii: "ii < 8"
    and sub: "\<And>v. v \<in> set sub \<Longrightarrow> v < 8 \<Longrightarrow> cubes FL ! ii ! v"
  shows "\<exists>st'. resolve_subset p ii sub st = Inr st' \<and> res_inv c xlen ylen zlen s p L FL st'"
proof (cases "anchor ii \<in> set sub")
  case True
  then show ?thesis using inv by (simp add: resolve_subset_def)
next
  case False
  have "\<exists>st'. fold_err (reset_val p ii) sub st = Inr st' \<and> res_inv c xlen ylen zlen s p L FL st'"
  proof (rule fold_err_inv[where I = "res_inv c xlen ylen zlen s p L FL"])
    fix v st1 assume "v \<in> set sub" "res_inv c xlen ylen zlen s p L FL st1"
    then show "\<exists>s'. reset_val p ii v st1 = Inr s' \<and> res_inv c xlen ylen zlen s p L FL s'"
      using reset_val_inv[OF fl _ ii, where st = st1 and v = v] sub by blast
  qed (rule inv)
  with False show ?thesis by (simp add: resolve_subset_def)
qed

lemma resolve_cube_inv:
  assumes fl: "\<And>f. FL f \<Longrightarrow> in_grid xlen ylen zlen (nbr p f) \<and> elem c (cell_of (nbr p f)) \<and>
                 elem L (cell_of (nbr p f)) = 0"
    and inv: "res_inv c xlen ylen zlen s p L FL st"
    and ii: "ii < 8"
    and ok: "table_ok outliers"
  shows "\<exists>st'. resolve_cube outliers p (map find_case_number (cubes FL)) ii st = Inr st' \<and>
               res_inv c xlen ylen zlen s p L FL st'"
proof -
  let ?code = "map find_case_number (cubes FL) ! ii"
  have code: "?code = find_case_number (cubes FL ! ii)" using ii length_cubes(1)[of FL] by simp
  have bitv: "cubes FL ! ii ! v" if "sub \<in> set (outliers ?code)" "v \<in> set sub" "v < 8" for sub v
  proof -
    from ok that(1,2) have "bit ?code v" unfolding table_ok_def by blast
    then show ?thesis unfolding code using bit_find_case_number[OF length_cubes(2)[OF ii] that(3)] by simp
  qed
  have "\<exists>st'. fold_err (resolve_subset p ii) (outliers ?code) st = Inr st' \<and>
              res_inv c xlen ylen zlen s p L FL st'"
  proof (rule fold_err_inv[where I = "res_inv c xlen ylen zlen s p L FL"])
    fix sub st1 assume "sub \<in> set (outliers ?code)" "res_inv c xlen ylen zlen s p L FL st1"
    then show "\<exists>s'. resolve_subset p ii sub st1 = Inr s' \<and> res_inv c xlen ylen zlen s p L FL s'"
      using resolve_subset_inv[OF fl _ ii, where st = st1 and sub = sub] bitv by blast
  qed (rule inv)
  then show ?thesis using inv by (auto simp add: resolve_cube_def Let_def)
qed

lemma resolver_inv:
  assumes fl: "\<And>f. FL f \<Longrightarrow> in_grid xlen ylen zlen (nbr p f) \<and> elem c (cell_of (nbr p f)) \<and>
                 elem L (cell_of (nbr p f)) = 0"
    and inv: "res_inv c xlen ylen zlen s p L FL st"
    and ok: "table_ok outliers"
  shows "\<exists>st'. resolver outliers p st = Inr st' \<and> res_inv c xlen ylen zlen s p L FL st'"
proof -
  from inv have FL: "flags st = FL" by (simp add: res_inv_def)
  have "\<exists>st'. fold_err (resolve_cube outliers p (map find_case_number (cubes FL))) [0..<8] st = Inr st' \<and>
              res_inv c xlen ylen zlen s p L FL st'"
  proof (rule fold_err_inv[where I = "res_inv c xlen ylen zlen s p L FL"])
    fix ii st1 assume "ii \<in> set [0..<8]" "res_inv c xlen ylen zlen s p L FL st1"
    then show "\<exists>s'. resolve_cube outliers p (map find_case_number (cubes FL)) ii st1 = Inr s' \<and>
                    res_inv c xlen ylen zlen s p L FL s'"
      using resolve_cube_inv[OF fl _ _ ok, where st = st1 and ii = ii] by simp
  qed (rule inv)
  then show ?thesis by (simp add: resolver_def Let_def FL)
qed

lemma link_all_res_inv:
  assumes "step_ok c xlen ylen zlen s p" "shaped L xlen ylen zlen"
  shows "res_inv c xlen ylen zlen s p L (flags (link_all c s p L)) (link_all c s p L)"
  unfolding res_inv_def
proof (intro conjI allI impI)
  note P = link_all_props[OF assms]
  show "shaped (grid (link_all c s p L)) xlen ylen zlen" by (rule P(1))
  show "flags (link_all c s p L) = flags (link_all c s p L)" by simp
  fix q
  show "0 < elem L q \<Longrightarrow> elem (grid (link_all c s p L)) q = elem L q" by (rule P(2))
  assume ch: "elem (grid (link_all c s p L)) q \<noteq> elem L q"
  from P(3)[OF ch] obtain f where f: "elem (grid (link_all c s p L)) q = s" "elem L q = 0" "elem c q"
    "q = cell_of (nbr p f)" "flags (link_all c s p L) f" by blast
  from f show "elem (grid (link_all c s p L)) q = s" "elem L q = 0" "elem c q" by simp_all
  from f P(5)[of f] show "\<exists>f. aux (link_all c s p L) (offset f) \<noteq> 0 \<and> q = cell_of (nbr p f)" by blast
next
  note P = link_all_props[OF assms]
  fix f assume "aux (link_all c s p L) (offset f) \<noteq> 0"
  then have fl: "flags (link_all c s p L) f" using P(5)[of f] by simp
  then show "flags (link_all c s p L) f" .
  from P(4)[OF fl] show "elem (grid (link_all c s p L)) (cell_of (nbr p f)) = s" by simp
qed

lemma res_inv_post:
  assumes fl: "\<And>f. FL f \<Longrightarrow> in_grid xlen ylen zlen (nbr p f) \<and> elem c (cell_of (nbr p f)) \<and>
                 elem L (cell_of (nbr p f)) = 0"
    and inv: "res_inv c xlen ylen zlen s p L FL st"
  shows "step_post c xlen ylen zlen s L (grid st) (new_neighbors p st)"
proof -
  have new: "new_neighbors p st = map (nbr p) (filter (\<lambda>f. aux st (offset f) \<noteq> 0) all_flags)"
    by (simp add: new_neighbors_def nbr_def)
  have auxFL: "FL f \<and> elem (grid st) (cell_of (nbr p f)) = s" if "aux st (offset f) \<noteq> 0" for f
    using inv that unfolding res_inv_def by blast
  have mem: "nbr p f \<in> set (new_neighbors p st)" if "aux st (offset f) \<noteq> 0" for f
    unfolding new using that all_flags_complete[of f] by auto
  show ?thesis
    unfolding step_post_def
  proof (intro conjI allI impI ballI)
    show "shaped (grid st) xlen ylen zlen" using inv by (simp add: res_inv_def)
  next
    fix q assume "0 < elem L q"
    then show "elem (grid st) q = elem L q" using inv by (simp add: res_inv_def)
  next
    fix q assume "elem (grid st) q \<noteq> elem L q"
    with inv obtain f where f: "elem (grid st) q = s" "elem L q = 0" "elem c q"
      "aux st (offset f) \<noteq> 0" "q = cell_of (nbr p f)"
      unfolding res_inv_def by blast
    from f show "elem (grid st) q = s" "elem L q = 0" "elem c q" by simp_all
    from mem[OF f(4)] f(5) show "q \<in> cell_of ` set (new_neighbors p st)" by blast
  next
    fix n assume "n \<in> set (new_neighbors p st)"
    then obtain f where f: "n = nbr p f" "aux st (offset f) \<noteq> 0" unfolding new by auto
    from auxFL[OF f(2)] fl[of f] f(1)
    show "in_grid xlen ylen zlen n" "elem c (cell_of n)" "elem L (cell_of n) = 0"
      "elem (grid st) (cell_of n) = s" by simp_all
  next
    have "inj_on (\<lambda>f. cell_of (nbr p f)) {f. aux st (offset f) \<noteq> 0}"
    proof (rule inj_onI)
      fix f g assume a: "f \<in> {f. aux st (offset f) \<noteq> 0}" "g \<in> {f. aux st (offset f) \<noteq> 0}"
        "cell_of (nbr p f) = cell_of (nbr p g)"
      from a(1,2) auxFL fl have "in_grid xlen ylen zlen (nbr p f)" "in_grid xlen ylen zlen (nbr p g)"
        by blast+
      from cell_of_inj[OF this a(3)] show "f = g" by (rule nbr_inj)
    qed
    then have "inj_on (\<lambda>f. cell_of (nbr p f)) (set (filter (\<lambda>f. aux st (offset f) \<noteq> 0) all_flags))"
      by (rule inj_on_subset) auto
    then show "distinct (map cell_of (new_neighbors p st))"
      unfolding new by (simp add: distinct_map distinct_all_flags comp_def)
  qed
qed

lemma expand_post:
  assumes "step_ok c xlen ylen zlen s p" "shaped L xlen ylen zlen" "mc \<longrightarrow> table_ok outliers"
  shows "\<exists>L' new. expand mc outliers c s p L = Inr (L', new) \<and> step_post c xlen ylen zlen s L L' new"
proof -
  let ?st = "link_all c s p L"
  have fl: "\<And>f. flags ?st f \<Longrightarrow> in_grid xlen ylen zlen (nbr p f) \<and> elem c (cell_of (nbr p f)) \<and>
                 elem L (cell_of (nbr p f)) = 0"
    using link_all_props(4)[OF assms(1,2)] by blast
  note inv = link_all_res_inv[OF assms(1,2)]
  show ?thesis
  proof (cases mc)
    case False
    then show ?thesis using res_inv_post[OF fl inv] by (simp add: expand_def Let_def)
  next
    case True
    with assms(3) have ok: "table_ok outliers" by simp
    from resolver_inv[OF fl inv ok] obtain st' where
      st': "resolver outliers p ?st = Inr st'" "res_inv c xlen ylen zlen s p L (flags ?st) st'" by blast
    from res_inv_post[OF fl st'(2)] st'(1) True show ?thesis by (simp add: expand_def Let_def)
  qed
qed

lemma expand_complete:
  assumes "step_ok c xlen ylen zlen s p" "shaped L xlen ylen zlen"
    "expand False outliers c s p L = Inr (L', new)"
    "in_grid xlen ylen zlen (nbr p f)" "elem c (cell_of (nbr p f))"
  shows "0 < elem L' (cell_of (nbr p f))"
  using link_all_props(6)[OF assms(1,2,4,5)] assms(3) by (simp add: expand_def Let_def)

lemma finite_in_grid: "finite {p. in_grid xlen ylen zlen p}"
proof -
  have "{p. in_grid xlen ylen zlen p} \<subseteq> {0..<int xlen} \<times> {0..<int ylen} \<times> {0..<int zlen}"
    by (auto simp add: in_grid_def)
  then show ?thesis by (rule finite_subset) simp
qed

lemma finite_unlab: "finite (unlab c xlen ylen zlen L)"
  by (rule finite_subset[OF _ finite_in_grid[of xlen ylen zlen]]) (auto simp add: unlab_def)

lemma unlab_step:
  assumes "step_post c xlen ylen zlen s L L' new" "0 < s"
  shows "unlab c xlen ylen zlen L' = unlab c xlen ylen zlen L - set new"
    and "set new \<subseteq> unlab c xlen ylen zlen L"
    and "distinct new"
proof -
  from assms(1) have keep: "\<And>q. 0 < elem L q \<Longrightarrow> elem L' q = elem L q"
    and ch: "\<And>q. elem L' q \<noteq> elem L q \<Longrightarrow> q \<in> cell_of ` set new"
    and new: "\<And>n. n \<in> set new \<Longrightarrow> in_grid xlen ylen zlen n \<and> elem c (cell_of n) \<and>
                elem L (cell_of n) = 0 \<and> elem L' (cell_of n) = s"
    and dist: "distinct (map cell_of new)"
    unfolding step_post_def by blast+
  show "set new \<subseteq> unlab c xlen ylen zlen L" using new by (auto simp add: unlab_def)
  show "distinct new" using dist by (simp add: distinct_map)
  show "unlab c xlen ylen zlen L' = unlab c xlen ylen zlen L - set new"
  proof (intro set_eqI iffI)
    fix p assume p: "p \<in> unlab c xlen ylen zlen L'"
    then have a: "in_grid xlen ylen zlen p" "elem c (cell_of p)" "elem L' (cell_of p) = 0"
      by (simp_all add: unlab_def)
    have "elem L (cell_of p) = 0"
    proof (rule ccontr)
      assume "elem L (cell_of p) \<noteq> 0"
      then have "0 < elem L (cell_of p)" by simp
      from keep[OF this] this a(3) show False by simp
    qed
    moreover have "p \<notin> set new" using new[of p] a(3) assms(2) by auto
    ultimately show "p \<in> unlab c xlen ylen zlen L - set new" using a by (simp add: unlab_def)
  next
    fix p assume p: "p \<in> unlab c xlen ylen zlen L - set new"
    then have a: "in_grid xlen ylen zlen p" "elem c (cell_of p)" "elem L (cell_of p) = 0" "p \<notin> set new"
      by (simp_all add: unlab_def)
    have "elem L' (cell_of p) = elem L (cell_of p)"
    proof (rule ccontr)
      assume "elem L' (cell_of p) \<noteq> elem L (cell_of p)"
      from ch[OF this] obtain n where n: "n \<in> set new" "cell_of p = cell_of n" by auto
      from new[OF n(1)] have "in_grid xlen ylen zlen n" by simp
      from cell_of_inj[OF a(1) this n(2)] n(1) a(4) show False by simp
    qed
    with a show "p \<in> unlab c xlen ylen zlen L'" by (simp add: unlab_def)
  qed
qed

lemma card_unlab_step:
  assumes "step_post c xlen ylen zlen s L L' new" "0 < s"
  shows "card (unlab c xlen ylen zlen L') + length new = card (unlab c xlen ylen zlen L)"
proof -
  note u = unlab_step[OF assms]
  have "card (set new) = length new" using u(3) by (rule distinct_card)
  moreover have "card (unlab c xlen ylen zlen L - set new) = card (unlab c xlen ylen zlen L) - card (set new)"
    using u(2) by (simp add: card_Diff_subset)
  moreover have "card (set new) \<le> card (unlab c xlen ylen zlen L)"
    using u(2) finite_unlab by (rule card_mono[rotated])
  ultimately show ?thesis using u(1) by simp
qed

lemma grow_loop:
  assumes pad: "padded c xlen ylen zlen" and s: "0 < s" "s < 2 ^ 32"
    and tab: "mc \<longrightarrow> table_ok outliers"
  shows "shaped L xlen ylen zlen \<Longrightarrow> \<forall>n\<in>set nv. in_grid xlen ylen zlen n \<Longrightarrow> 0 < lc \<Longrightarrow>
         \<exists>L' ext. grow mc outliers c s L nv nc lc p = Some (Inr (L', nv @ ext)) \<and>
                  grow_post mc c xlen ylen zlen s L L' (nv @ ext) nc"
proof (induction "2 * card (unlab c xlen ylen zlen L) + (length nv - nc)"
    arbitrary: L nv nc lc p rule: less_induct)
  case less
  show ?case
  proof (cases "nc < length nv")
    case False
    have "grow mc outliers c s L nv nc lc p = Some (Inr (L, nv @ []))"
      using False less.prems(3) by (subst grow.simps) simp
    moreover have "grow_post mc c xlen ylen zlen s L L (nv @ []) nc"
      using less.prems(1,2) False by (simp add: grow_post_def)
    ultimately show ?thesis by blast
  next
    case True
    let ?p = "nv ! nc"
    from True less.prems(2) have pin: "in_grid xlen ylen zlen ?p" by simp
    have ok: "step_ok c xlen ylen zlen s ?p" using pad s pin by (simp add: step_ok_def)
    from expand_post[OF ok less.prems(1) tab] obtain L1 new where
      ex: "expand mc outliers c s ?p L = Inr (L1, new)" and
      post: "step_post c xlen ylen zlen s L L1 new" by blast
    have eq: "grow mc outliers c s L nv nc lc p =
              grow mc outliers c s L1 (nv @ new) (nc + 1) (lc + 1) ?p"
      using True less.prems(3) ex by (subst grow.simps) (simp add: Let_def)
    have sh1: "shaped L1 xlen ylen zlen" using post by (simp add: step_post_def)
    have in1: "\<forall>n\<in>set (nv @ new). in_grid xlen ylen zlen n"
      using less.prems(2) post by (auto simp add: step_post_def)
    have meas: "2 * card (unlab c xlen ylen zlen L1) + (length (nv @ new) - (nc + 1))
                < 2 * card (unlab c xlen ylen zlen L) + (length nv - nc)"
      using card_unlab_step[OF post s(1)] True by simp
    from less.hyps[OF meas sh1 in1, of "lc + 1" ?p] obtain L' ext where
      g: "grow mc outliers c s L1 (nv @ new) (nc + 1) (lc + 1) ?p = Some (Inr (L', (nv @ new) @ ext))"
      and gp: "grow_post mc c xlen ylen zlen s L1 L' ((nv @ new) @ ext) (nc + 1)" by auto
    let ?nv' = "nv @ (new @ ext)"
    have keep1: "\<And>q. 0 < elem L q \<Longrightarrow> elem L1 q = elem L q"
      and ch1: "\<And>q. elem L1 q \<noteq> elem L q \<Longrightarrow>
                  elem L1 q = s \<and> elem L q = 0 \<and> elem c q \<and> q \<in> cell_of ` set new"
      using post unfolding step_post_def by blast+
    have gp': "grow_post mc c xlen ylen zlen s L1 L' ?nv' (nc + 1)" using gp by simp
    have keep2: "\<And>q. 0 < elem L1 q \<Longrightarrow> elem L' q = elem L1 q"
      using gp' unfolding grow_post_def by blast
    have ch2: "\<And>q. elem L' q \<noteq> elem L1 q \<Longrightarrow>
                  elem L' q = s \<and> elem L1 q = 0 \<and> elem c q \<and> q \<in> cell_of ` set ?nv'"
      using gp' unfolding grow_post_def by blast
    have sh2: "shaped L' xlen ylen zlen"
      using gp' unfolding grow_post_def by blast
    have in2: "\<forall>n\<in>set ?nv'. in_grid xlen ylen zlen n"
      using gp' unfolding grow_post_def by blast
    have cl2: "\<And>i f. \<not> mc \<Longrightarrow> nc + 1 \<le> i \<Longrightarrow> i < length ?nv' \<Longrightarrow>
                 in_grid xlen ylen zlen (nbr (?nv' ! i) f) \<Longrightarrow> elem c (cell_of (nbr (?nv' ! i) f)) \<Longrightarrow>
                 0 < elem L' (cell_of (nbr (?nv' ! i) f))"
      using gp' unfolding grow_post_def by blast
    have "grow_post mc c xlen ylen zlen s L L' ?nv' nc"
      unfolding grow_post_def
    proof (intro conjI allI impI)
      show "shaped L' xlen ylen zlen" by (rule sh2)
      show "\<forall>n\<in>set ?nv'. in_grid xlen ylen zlen n" by (rule in2)
    next
      fix q assume "0 < elem L q"
      then show "elem L' q = elem L q" using keep1[of q] keep2[of q] by simp
    next
      fix q assume d: "elem L' q \<noteq> elem L q"
      have "elem L' q = s \<and> elem L q = 0 \<and> elem c q \<and> q \<in> cell_of ` set ?nv'"
      proof (cases "elem L1 q = elem L q")
        case True
        with d ch2[of q] show ?thesis by simp
      next
        case False
        from ch1[OF False] have a: "elem L1 q = s" "elem L q = 0" "elem c q" "q \<in> cell_of ` set new"
          by simp_all
        from keep2[of q] a(1) s(1) have "elem L' q = s" by simp
        with a show ?thesis by auto
      qed
      then show "elem L' q = s" "elem L q = 0" "elem c q" "q \<in> cell_of ` set ?nv'" by simp_all
    next
      fix i f
      assume nmc: "\<not> mc"
        and a: "nc \<le> i \<and> i < length ?nv' \<and> in_grid xlen ylen zlen (nbr (?nv' ! i) f) \<and>
                elem c (cell_of (nbr (?nv' ! i) f))"
      show "0 < elem L' (cell_of (nbr (?nv' ! i) f))"
      proof (cases "i = nc")
        case True
        with \<open>nc < length nv\<close> have nth: "?nv' ! i = ?p" by (simp add: nth_append)
        from ex nmc have ex': "expand False outliers c s ?p L = Inr (L1, new)" by simp
        from expand_complete[OF ok less.prems(1) ex', of f] a nth
        have "0 < elem L1 (cell_of (nbr ?p f))" by simp
        with keep2[of "cell_of (nbr ?p f)"] nth show ?thesis by simp
      next
        case False
        with a have "nc + 1 \<le> i" by simp
        with cl2[OF nmc, of i f] a show ?thesis by simp
      qed
    qed
    with eq g show ?thesis by (metis append_assoc)
  qed
qed



lemma grow_postD:
  assumes "grow_post mc c xlen ylen zlen s L L' nv k"
  shows "shaped L' xlen ylen zlen"
    and "\<And>q. 0 < elem L q \<Longrightarrow> elem L' q = elem L q"
    and "\<And>q. elem L' q \<noteq> elem L q \<Longrightarrow>
           elem L' q = s \<and> elem L q = 0 \<and> elem c q \<and> q \<in> cell_of ` set nv"
    and "\<And>n. n \<in> set nv \<Longrightarrow> in_grid xlen ylen zlen n"
    and "\<And>i f. \<not> mc \<Longrightarrow> k \<le> i \<Longrightarrow> i < length nv \<Longrightarrow>
           in_grid xlen ylen zlen (nbr (nv ! i) f) \<Longrightarrow> elem c (cell_of (nbr (nv ! i) f)) \<Longrightarrow>
           0 < elem L' (cell_of (nbr (nv ! i) f))"
proof -
  from assms have a: "shaped L' xlen ylen zlen"
    "\<forall>q. 0 < elem L q \<longrightarrow> elem L' q = elem L q"
    "\<forall>q. elem L' q \<noteq> elem L q \<longrightarrow>
           elem L' q = s \<and> elem L q = 0 \<and> elem c q \<and> q \<in> cell_of ` set nv"
    "\<forall>n\<in>set nv. in_grid xlen ylen zlen n"
    "\<not> mc \<longrightarrow>
         (\<forall>i f. k \<le> i \<and> i < length nv \<and> in_grid xlen ylen zlen (nbr (nv ! i) f) \<and>
                elem c (cell_of (nbr (nv ! i) f)) \<longrightarrow>
                0 < elem L' (cell_of (nbr (nv ! i) f)))"
    unfolding grow_post_def by simp_all
  show "shaped L' xlen ylen zlen" by (rule a(1))
  show "\<And>q. 0 < elem L q \<Longrightarrow> elem L' q = elem L q" using a(2) by simp
  show "\<And>q. elem L' q \<noteq> elem L q \<Longrightarrow>
           elem L' q = s \<and> elem L q = 0 \<and> elem c q \<and> q \<in> cell_of ` set nv"
    using a(3) by (rule allE) (erule mp)
  show "\<And>n. n \<in> set nv \<Longrightarrow> in_grid xlen ylen zlen n" using a(4) by simp
  fix i f
  assume "\<not> mc" "k \<le> i" "i < length nv" "in_grid xlen ylen zlen (nbr (nv ! i) f)"
    "elem c (cell_of (nbr (nv ! i) f))"
  with a(5) show "0 < elem L' (cell_of (nbr (nv ! i) f))" by simp
qed

lemma grow_start:
  assumes pad: "padded c xlen ylen zlen" and s: "0 < s" "s < 2 ^ 32"
    and tab: "mc \<longrightarrow> table_ok outliers"
    and sh: "shaped L xlen ylen zlen" and p0: "in_grid xlen ylen zlen p0"
  shows "\<exists>L' nv. grow mc outliers c s L [] 0 0 p0 = Some (Inr (L', nv)) \<and>
                 struct_post mc c xlen ylen zlen s p0 L L' nv"
proof -
  have ok: "step_ok c xlen ylen zlen s p0" using pad s p0 by (simp add: step_ok_def)
  from expand_post[OF ok sh tab] obtain L1 new where
    ex: "expand mc outliers c s p0 L = Inr (L1, new)" and
    post: "step_post c xlen ylen zlen s L L1 new" by blast
  have eq: "grow mc outliers c s L [] 0 0 p0 = grow mc outliers c s L1 new 0 1 p0"
    by (subst grow.simps) (simp add: Let_def ex)
  have sh1: "shaped L1 xlen ylen zlen" using post by (simp add: step_post_def)
  have in1: "\<forall>n\<in>set new. in_grid xlen ylen zlen n" using post by (simp add: step_post_def)
  have "0 < (1::nat)" by simp
  from grow_loop[OF pad s tab sh1 in1 this, of 0 p0] obtain L' ext where
    g: "grow mc outliers c s L1 new 0 1 p0 = Some (Inr (L', new @ ext))"
    and gp: "grow_post mc c xlen ylen zlen s L1 L' (new @ ext) 0" by blast
  let ?nv = "new @ ext"
  have keep1: "\<And>q. 0 < elem L q \<Longrightarrow> elem L1 q = elem L q"
    using post unfolding step_post_def by blast
  have ch1: "\<And>q. elem L1 q \<noteq> elem L q \<Longrightarrow>
                elem L1 q = s \<and> elem L q = 0 \<and> elem c q \<and> q \<in> cell_of ` set new"
    using post unfolding step_post_def by blast
  note keep2 = grow_postD(2)[OF gp]
  note ch2 = grow_postD(3)[OF gp]
  note sh2 = grow_postD(1)[OF gp]
  have in2: "\<forall>n\<in>set ?nv. in_grid xlen ylen zlen n" using grow_postD(4)[OF gp] by simp
  have cl2: "\<And>i f. \<not> mc \<Longrightarrow> i < length ?nv \<Longrightarrow>
               in_grid xlen ylen zlen (nbr (?nv ! i) f) \<Longrightarrow> elem c (cell_of (nbr (?nv ! i) f)) \<Longrightarrow>
               0 < elem L' (cell_of (nbr (?nv ! i) f))"
    using grow_postD(5)[OF gp] by simp
  have "struct_post mc c xlen ylen zlen s p0 L L' ?nv"
    unfolding struct_post_def
  proof (intro conjI allI impI)
    show "shaped L' xlen ylen zlen" by (rule sh2)
    show "\<forall>n\<in>set ?nv. in_grid xlen ylen zlen n" by (rule in2)
  next
    fix q assume "0 < elem L q"
    then show "elem L' q = elem L q" using keep1[of q] keep2[of q] by simp
  next
    fix q assume d: "elem L' q \<noteq> elem L q"
    have "elem L' q = s \<and> elem L q = 0 \<and> elem c q \<and> q \<in> cell_of ` set ?nv"
    proof (cases "elem L1 q = elem L q")
      case True
      with d ch2[of q] show ?thesis by simp
    next
      case False
      from ch1[OF False] have a: "elem L1 q = s" "elem L q = 0" "elem c q" "q \<in> cell_of ` set new"
        by simp_all
      from keep2[of q] a(1) s(1) have "elem L' q = s" by simp
      with a show ?thesis by auto
    qed
    then show "elem L' q = s" "elem L q = 0" "elem c q" "q \<in> cell_of ` set ?nv" by simp_all
  next
    fix p f
    assume nmc: "\<not> mc"
      and a: "p \<in> insert p0 (set ?nv) \<and> in_grid xlen ylen zlen (nbr p f) \<and> elem c (cell_of (nbr p f))"
    show "0 < elem L' (cell_of (nbr p f))"
    proof (cases "p = p0")
      case True
      from ex nmc have ex': "expand False outliers c s p0 L = Inr (L1, new)" by simp
      from expand_complete[OF ok sh ex', of f] a True
      have "0 < elem L1 (cell_of (nbr p0 f))" by simp
      with keep2[of "cell_of (nbr p0 f)"] True show ?thesis by simp
    next
      case False
      with a have "p \<in> set ?nv" by simp
      then obtain i where "i < length ?nv" "?nv ! i = p" by (metis in_set_conv_nth)
      with cl2[OF nmc, of i f] a show ?thesis by simp
    qed
  qed
  with eq g show ?thesis by simp
qed

lemma nbr_opposite: "nbr (nbr p f) (opposite f) = p"
  by (cases p; cases f) (simp_all add: nbr_def)

lemma positions_set:
  "set (positions X Y Z) = {(int i, int j, int k) | i j k. i < X \<and> j < Y \<and> k < Z}"
  by (fastforce simp add: positions_def)

lemma positions_in_box:
  "p \<in> set (positions (Suc xlen) (Suc ylen) (Suc zlen)) \<Longrightarrow> in_box xlen ylen zlen p"
  by (auto simp add: positions_set in_box_def)

lemma in_grid_in_box: "in_grid xlen ylen zlen p \<Longrightarrow> in_box xlen ylen zlen p"
  by (cases p) (auto simp add: in_grid_def in_box_def)

lemma norm3_box:
  "in_box xlen ylen zlen p \<Longrightarrow> norm3 [Suc xlen, Suc ylen, Suc zlen] p = Inr (cell_of p)"
  by (cases p) (auto simp add: in_box_def norm_axis_def Let_def)

lemma cell_of_inj_box:
  "in_box xlen ylen zlen p \<Longrightarrow> in_box xlen ylen zlen q \<Longrightarrow> cell_of p = cell_of q \<Longrightarrow> p = q"
  by (cases p; cases q) (auto simp add: in_box_def)

lemma padded_in_grid:
  "padded c xlen ylen zlen \<Longrightarrow> in_box xlen ylen zlen p \<Longrightarrow> elem c (cell_of p) \<Longrightarrow>
   in_grid xlen ylen zlen p"
proof -
  assume a: "padded c xlen ylen zlen" "in_box xlen ylen zlen p" "elem c (cell_of p)"
  obtain i j k where p: "p = (i, j, k)" by (cases p) auto
  from a(1) have "\<And>a b d. elem c [a, b, d] \<Longrightarrow> a < xlen \<and> b < ylen \<and> d < zlen"
    by (simp add: padded_def)
  from this[of "nat i" "nat j" "nat k"] a(2,3) show ?thesis
    by (auto simp add: p in_box_def in_grid_def)
qed

lemma get3_box:
  "padded c xlen ylen zlen \<Longrightarrow> in_box xlen ylen zlen p \<Longrightarrow> get3 c p = Inr (elem c (cell_of p))"
  by (simp add: get3_def padded_def norm3_box)

lemma get3_labels_box:
  "shaped L xlen ylen zlen \<Longrightarrow> in_box xlen ylen zlen p \<Longrightarrow> get3 L p = Inr (elem L (cell_of p))"
  by (simp add: get3_def shaped_def norm3_box)

lemma set3_labels_box:
  "shaped L xlen ylen zlen \<Longrightarrow> in_box xlen ylen zlen p \<Longrightarrow>
   set3 L p v = Inr (L\<lparr>elem := (elem L)(cell_of p := v)\<rparr>)"
  by (simp add: set3_def shaped_def norm3_box)

lemma struct_postD:
  assumes "struct_post mc c xlen ylen zlen s p0 L L' nv"
  shows "shaped L' xlen ylen zlen"
    and "\<And>q. 0 < elem L q \<Longrightarrow> elem L' q = elem L q"
    and "\<And>q. elem L' q \<noteq> elem L q \<Longrightarrow>
           elem L' q = s \<and> elem L q = 0 \<and> elem c q \<and> q \<in> cell_of ` set nv"
    and "\<And>n. n \<in> set nv \<Longrightarrow> in_grid xlen ylen zlen n"
    and "\<And>p f. \<not> mc \<Longrightarrow> p \<in> insert p0 (set nv) \<Longrightarrow>
           in_grid xlen ylen zlen (nbr p f) \<Longrightarrow> elem c (cell_of (nbr p f)) \<Longrightarrow>
           0 < elem L' (cell_of (nbr p f))"
proof -
  from assms have a: "shaped L' xlen ylen zlen"
    "\<forall>q. 0 < elem L q \<longrightarrow> elem L' q = elem L q"
    "\<forall>q. elem L' q \<noteq> elem L q \<longrightarrow>
           elem L' q = s \<and> elem L q = 0 \<and> elem c q \<and> q \<in> cell_of ` set nv"
    "\<forall>n\<in>set nv. in_grid xlen ylen zlen n"
    "\<not> mc \<longrightarrow>
         (\<forall>p f. p \<in> insert p0 (set nv) \<and> in_grid xlen ylen zlen (nbr p f) \<and>
                elem c (cell_of (nbr p f)) \<longrightarrow>
                0 < elem L' (cell_of (nbr p f)))"
    unfolding struct_post_def by simp_all
  show "shaped L' xlen ylen zlen" by (rule a(1))
  show "\<And>q. 0 < elem L q \<Longrightarrow> elem L' q = elem L q" using a(2) by simp
  show "\<And>q. elem L' q \<noteq> elem L q \<Longrightarrow>
           elem L' q = s \<and> elem L q = 0 \<and> elem c q \<and> q \<in> cell_of ` set nv"
    using a(3) by (rule allE) (erule mp)
  show "\<And>n. n \<in> set nv \<Longrightarrow> in_grid xlen ylen zlen n" using a(4) by simp
  fix p f
  assume "\<not> mc" "p \<in> insert p0 (set nv)" "in_grid xlen ylen zlen (nbr p f)"
    "elem c (cell_of (nbr p f))"
  with a(5) show "0 < elem L' (cell_of (nbr p f))" by blast
qed

lemma scan_invD:
  assumes "scan_inv mc c xlen ylen zlen st seen"
  shows "shaped (labels st) xlen ylen zlen"
    and "\<And>q. 0 < elem (labels st) q \<Longrightarrow> elem c q \<and> elem (labels st) q \<le> structVal st"
    and "\<And>p. p \<in> set seen \<Longrightarrow> in_grid xlen ylen zlen p \<Longrightarrow> elem c (cell_of p) \<Longrightarrow>
           0 < elem (labels st) (cell_of p)"
    and "\<And>p f. \<not> mc \<Longrightarrow> in_grid xlen ylen zlen p \<Longrightarrow> 0 < elem (labels st) (cell_of p) \<Longrightarrow>
           in_grid xlen ylen zlen (nbr p f) \<Longrightarrow> elem c (cell_of (nbr p f)) \<Longrightarrow>
           elem (labels st) (cell_of (nbr p f)) = elem (labels st) (cell_of p)"
    and "\<And>l. 0 < l \<Longrightarrow> l \<le> structVal st \<Longrightarrow>
           \<exists>m<length seen. elem (labels st) (cell_of (seen ! m)) = l \<and>
              (\<forall>m'<m. elem (labels st) (cell_of (seen ! m')) < l)"
proof -
  from assms have a: "shaped (labels st) xlen ylen zlen"
    "\<forall>q. 0 < elem (labels st) q \<longrightarrow> elem c q \<and> elem (labels st) q \<le> structVal st"
    "\<forall>p\<in>set seen. in_grid xlen ylen zlen p \<and> elem c (cell_of p) \<longrightarrow>
           0 < elem (labels st) (cell_of p)"
    "\<not> mc \<longrightarrow>
         (\<forall>p f. in_grid xlen ylen zlen p \<and> 0 < elem (labels st) (cell_of p) \<and>
                in_grid xlen ylen zlen (nbr p f) \<and> elem c (cell_of (nbr p f)) \<longrightarrow>
                elem (labels st) (cell_of (nbr p f)) = elem (labels st) (cell_of p))"
    "\<forall>l. 0 < l \<and> l \<le> structVal st \<longrightarrow>
           (\<exists>m<length seen. elem (labels st) (cell_of (seen ! m)) = l \<and>
              (\<forall>m'<m. elem (labels st) (cell_of (seen ! m')) < l))"
    unfolding scan_inv_def by simp_all
  show "shaped (labels st) xlen ylen zlen" by (rule a(1))
  show "\<And>q. 0 < elem (labels st) q \<Longrightarrow> elem c q \<and> elem (labels st) q \<le> structVal st"
    using a(2) by (rule allE) (erule mp)
  show "\<And>p. p \<in> set seen \<Longrightarrow> in_grid xlen ylen zlen p \<Longrightarrow> elem c (cell_of p) \<Longrightarrow>
           0 < elem (labels st) (cell_of p)"
    using a(3) by blast
  show "\<And>p f. \<not> mc \<Longrightarrow> in_grid xlen ylen zlen p \<Longrightarrow> 0 < elem (labels st) (cell_of p) \<Longrightarrow>
           in_grid xlen ylen zlen (nbr p f) \<Longrightarrow> elem c (cell_of (nbr p f)) \<Longrightarrow>
           elem (labels st) (cell_of (nbr p f)) = elem (labels st) (cell_of p)"
    using a(4) by blast
  show "\<And>l. 0 < l \<Longrightarrow> l \<le> structVal st \<Longrightarrow>
           \<exists>m<length seen. elem (labels st) (cell_of (seen ! m)) = l \<and>
              (\<forall>m'<m. elem (labels st) (cell_of (seen ! m')) < l)"
    using a(5) by (rule allE) (erule mp, simp)
qed

lemma scan_inv_skip:
  assumes inv: "scan_inv mc c xlen ylen zlen st seen"
    and no: "\<not> (in_grid xlen ylen zlen p \<and> elem c (cell_of p) \<and> elem (labels st) (cell_of p) = 0)"
  shows "scan_inv mc c xlen ylen zlen st (seen @ [p])"
  unfolding scan_inv_def
proof (intro conjI allI impI ballI)
  note D = scan_invD[OF inv]
  show "shaped (labels st) xlen ylen zlen" by (rule D(1))
  fix q assume "0 < elem (labels st) q"
  from D(2)[OF this] show "elem c q" "elem (labels st) q \<le> structVal st" by simp_all
next
  note D = scan_invD[OF inv]
  fix r assume r: "r \<in> set (seen @ [p])" "in_grid xlen ylen zlen r \<and> elem c (cell_of r)"
  show "0 < elem (labels st) (cell_of r)"
  proof (cases "r = p")
    case True
    with r(2) no show ?thesis by auto
  next
    case False
    with r D(3)[of r] show ?thesis by simp
  qed
next
  note D = scan_invD[OF inv]
  fix r f
  assume "\<not> mc" "in_grid xlen ylen zlen r \<and> 0 < elem (labels st) (cell_of r) \<and>
         in_grid xlen ylen zlen (nbr r f) \<and> elem c (cell_of (nbr r f))"
  then show "elem (labels st) (cell_of (nbr r f)) = elem (labels st) (cell_of r)"
    using D(4)[of r f] by simp
next
  note D = scan_invD[OF inv]
  fix l assume "0 < l \<and> l \<le> structVal st"
  with D(5)[of l] obtain m where m: "m < length seen" "elem (labels st) (cell_of (seen ! m)) = l"
    "\<forall>m'<m. elem (labels st) (cell_of (seen ! m')) < l" by blast
  have "m < length (seen @ [p]) \<and> elem (labels st) (cell_of ((seen @ [p]) ! m)) = l \<and>
        (\<forall>m'<m. elem (labels st) (cell_of ((seen @ [p]) ! m')) < l)"
    using m by (simp add: nth_append)
  then show "\<exists>m<length (seen @ [p]). elem (labels st) (cell_of ((seen @ [p]) ! m)) = l \<and>
        (\<forall>m'<m. elem (labels st) (cell_of ((seen @ [p]) ! m')) < l)" by blast
qed

lemma scan_inv_new:
  assumes pad: "padded c xlen ylen zlen"
    and inv: "scan_inv mc c xlen ylen zlen st seen"
    and box: "\<forall>r\<in>set seen. in_box xlen ylen zlen r"
    and pg: "in_grid xlen ylen zlen p" and pc: "elem c (cell_of p)"
    and p0: "elem (labels st) (cell_of p) = 0"
    and s: "s = structVal st + 1"
    and sp: "struct_post mc c xlen ylen zlen s p
               ((labels st)\<lparr>elem := (elem (labels st))(cell_of p := s)\<rparr>) L' nv"
  shows "scan_inv mc c xlen ylen zlen \<lparr>structVal = s, labels = L', boxes = b\<rparr> (seen @ [p])"
proof -
  note D = scan_invD[OF inv]
  note S = struct_postD[OF sp]
  have F1: "elem L' q = elem (labels st) q" if "0 < elem (labels st) q" for q
  proof -
    from that p0 have "q \<noteq> cell_of p" by auto
    with S(2)[of q] that show ?thesis by simp
  qed
  have F2: "elem L' (cell_of p) = s" using S(2)[of "cell_of p"] s by simp
  have F3: "elem L' q = s \<and> elem (labels st) q = 0 \<and> elem c q \<and> (q = cell_of p \<or> q \<in> cell_of ` set nv)"
    if d: "elem L' q \<noteq> elem (labels st) q" for q
  proof (cases "q = cell_of p")
    case True
    with F2 p0 pc show ?thesis by simp
  next
    case False
    with d have "elem L' q \<noteq> elem ((labels st)\<lparr>elem := (elem (labels st))(cell_of p := s)\<rparr>) q" by simp
    from S(3)[OF this] False show ?thesis by simp
  qed
  have F4: "q = cell_of p \<or> q \<in> cell_of ` set nv" if e: "elem L' q = s" for q
  proof (cases "elem L' q = elem (labels st) q")
    case True
    with e s have "0 < elem (labels st) q" by simp
    from D(2)[OF this] True e s show ?thesis by simp
  next
    case False
    from F3[OF False] show ?thesis by simp
  qed
  have F5: "elem c q \<and> elem L' q \<le> s" if "0 < elem L' q" for q
  proof (cases "elem L' q = elem (labels st) q")
    case True
    with that D(2)[of q] s show ?thesis by simp
  next
    case False
    from F3[OF False] show ?thesis by simp
  qed
  have H: "elem L' (cell_of r) = elem (labels st) (cell_of r)" if r: "r \<in> set seen" for r
  proof (rule ccontr)
    assume "elem L' (cell_of r) \<noteq> elem (labels st) (cell_of r)"
    from F3[OF this] have z: "elem (labels st) (cell_of r) = 0" "elem c (cell_of r)" by simp_all
    from r box have "in_box xlen ylen zlen r" by simp
    from padded_in_grid[OF pad this z(2)] have "in_grid xlen ylen zlen r" .
    from D(3)[OF r this z(2)] z(1) show False by simp
  qed
  have mem: "r \<in> insert p (set nv)" if "in_grid xlen ylen zlen r" "elem L' (cell_of r) = s" for r
  proof -
    from F4[OF that(2)] show ?thesis
    proof
      assume "cell_of r = cell_of p"
      from cell_of_inj[OF that(1) pg this] show ?thesis by simp
    next
      assume "cell_of r \<in> cell_of ` set nv"
      then obtain n where n: "n \<in> set nv" "cell_of r = cell_of n" by auto
      from cell_of_inj[OF that(1) S(4)[OF n(1)] n(2)] n(1) show ?thesis by simp
    qed
  qed
  show ?thesis
    unfolding scan_inv_def
  proof (intro conjI allI impI ballI)
    show "shaped (labels \<lparr>structVal = s, labels = L', boxes = b\<rparr>) xlen ylen zlen"
      using S(1) by simp
  next
    fix q assume "0 < elem (labels \<lparr>structVal = s, labels = L', boxes = b\<rparr>) q"
    then have "0 < elem L' q" by simp
    from F5[OF this]
    show "elem c q"
      "elem (labels \<lparr>structVal = s, labels = L', boxes = b\<rparr>) q
         \<le> structVal \<lparr>structVal = s, labels = L', boxes = b\<rparr>" by simp_all
  next
    fix r assume r: "r \<in> set (seen @ [p])" "in_grid xlen ylen zlen r \<and> elem c (cell_of r)"
    have "0 < elem L' (cell_of r)"
    proof (cases "r = p")
      case True
      with F2 s show ?thesis by simp
    next
      case False
      with r have rs: "r \<in> set seen" by simp
      from D(3)[OF rs] r(2) have "0 < elem (labels st) (cell_of r)" by simp
      with F1[OF this] show ?thesis by simp
    qed
    then show "0 < elem (labels \<lparr>structVal = s, labels = L', boxes = b\<rparr>) (cell_of r)" by simp
  next
    fix r f
    assume nmc: "\<not> mc"
      and a: "in_grid xlen ylen zlen r \<and> 0 < elem (labels \<lparr>structVal = s, labels = L', boxes = b\<rparr>) (cell_of r) \<and>
              in_grid xlen ylen zlen (nbr r f) \<and> elem c (cell_of (nbr r f))"
    then have rg: "in_grid xlen ylen zlen r" and rl: "0 < elem L' (cell_of r)"
      and ng: "in_grid xlen ylen zlen (nbr r f)" and nc: "elem c (cell_of (nbr r f))" by simp_all
    from F5[OF rl] have rc: "elem c (cell_of r)" by simp
    have "elem L' (cell_of (nbr r f)) = elem L' (cell_of r)"
    proof (cases "elem L' (cell_of r) = s")
      case True
      from mem[OF rg True] have "r \<in> insert p (set nv)" .
      from S(5)[OF nmc this ng nc] have pos: "0 < elem L' (cell_of (nbr r f))" .
      have "elem L' (cell_of (nbr r f)) = s"
      proof (rule ccontr)
        assume ne: "elem L' (cell_of (nbr r f)) \<noteq> s"
        have same: "elem L' (cell_of (nbr r f)) = elem (labels st) (cell_of (nbr r f))"
          using F3[of "cell_of (nbr r f)"] ne by blast
        with pos have lp: "0 < elem (labels st) (cell_of (nbr r f))" by simp
        from D(4)[OF nmc ng lp, of "opposite f"] rg rc
        have "elem (labels st) (cell_of r) = elem (labels st) (cell_of (nbr r f))"
          by (simp add: nbr_opposite)
        with lp F1[of "cell_of r"] same have "elem L' (cell_of r) = elem L' (cell_of (nbr r f))" by simp
        with True ne show False by simp
      qed
      with True show ?thesis by simp
    next
      case False
      have same: "elem L' (cell_of r) = elem (labels st) (cell_of r)"
        using F3[of "cell_of r"] False by blast
      with rl have lp: "0 < elem (labels st) (cell_of r)" by simp
      from D(4)[OF nmc rg lp ng nc]
      have e: "elem (labels st) (cell_of (nbr r f)) = elem (labels st) (cell_of r)" .
      with lp F1[of "cell_of (nbr r f)"] same show ?thesis by simp
    qed
    then show "elem (labels \<lparr>structVal = s, labels = L', boxes = b\<rparr>) (cell_of (nbr r f)) =
               elem (labels \<lparr>structVal = s, labels = L', boxes = b\<rparr>) (cell_of r)" by simp
  next
    fix l assume "0 < l \<and> l \<le> structVal \<lparr>structVal = s, labels = L', boxes = b\<rparr>"
    then have l: "0 < l" "l \<le> s" by simp_all
    have "\<exists>m<length (seen @ [p]). elem L' (cell_of ((seen @ [p]) ! m)) = l \<and>
            (\<forall>m'<m. elem L' (cell_of ((seen @ [p]) ! m')) < l)"
    proof (cases "l = s")
      case True
      have "elem L' (cell_of (seen ! m')) < s" if "m' < length seen" for m'
      proof -
        from that have "seen ! m' \<in> set seen" by simp
        from H[OF this] have e: "elem L' (cell_of (seen ! m')) = elem (labels st) (cell_of (seen ! m'))" .
        show ?thesis
        proof (cases "0 < elem (labels st) (cell_of (seen ! m'))")
          case True
          from D(2)[OF True] e s show ?thesis by simp
        next
          case False
          with e s show ?thesis by simp
        qed
      qed
      then have "length seen < length (seen @ [p]) \<and>
          elem L' (cell_of ((seen @ [p]) ! length seen)) = l \<and>
          (\<forall>m'<length seen. elem L' (cell_of ((seen @ [p]) ! m')) < l)"
        using True F2 by (simp add: nth_append)
      then show ?thesis by blast
    next
      case False
      with l s have "l \<le> structVal st" by simp
      from D(5)[OF l(1) this] obtain m where m: "m < length seen"
        "elem (labels st) (cell_of (seen ! m)) = l"
        "\<forall>m'<m. elem (labels st) (cell_of (seen ! m')) < l" by blast
      have "elem L' (cell_of (seen ! k)) = elem (labels st) (cell_of (seen ! k))" if "k \<le> m" for k
        using H[of "seen ! k"] that m(1) by simp
      with m have "m < length (seen @ [p]) \<and> elem L' (cell_of ((seen @ [p]) ! m)) = l \<and>
          (\<forall>m'<m. elem L' (cell_of ((seen @ [p]) ! m')) < l)"
        by (simp add: nth_append)
      then show ?thesis by blast
    qed
    then show "\<exists>m<length (seen @ [p]).
        elem (labels \<lparr>structVal = s, labels = L', boxes = b\<rparr>) (cell_of ((seen @ [p]) ! m)) = l \<and>
        (\<forall>m'<m. elem (labels \<lparr>structVal = s, labels = L', boxes = b\<rparr>) (cell_of ((seen @ [p]) ! m')) < l)"
      by simp
  qed
qed

lemma scan_cell_inv:
  assumes pad: "padded c xlen ylen zlen" and tab: "mc \<longrightarrow> table_ok outliers"
    and inv: "scan_inv mc c xlen ylen zlen st seen"
    and box: "\<forall>r\<in>set seen. in_box xlen ylen zlen r"
    and pbox: "in_box xlen ylen zlen p"
    and bound: "structVal st + 1 < 2 ^ 32"
  shows "\<exists>st'. scan_cell mc outliers wn c p st = Some (Inr st') \<and>
               scan_inv mc c xlen ylen zlen st' (seen @ [p]) \<and> structVal st' \<le> structVal st + 1"
proof -
  note D = scan_invD[OF inv]
  have gc: "get3 c p = Inr (elem c (cell_of p))" by (rule get3_box[OF pad pbox])
  have gl: "get3 (labels st) p = Inr (elem (labels st) (cell_of p))"
    by (rule get3_labels_box[OF D(1) pbox])
  show ?thesis
  proof (cases "elem c (cell_of p) \<and> elem (labels st) (cell_of p) = 0")
    case False
    then have "scan_cell mc outliers wn c p st = Some (Inr st)"
      by (auto simp add: scan_cell_def gc gl)
    moreover have "scan_inv mc c xlen ylen zlen st (seen @ [p])"
      by (rule scan_inv_skip[OF inv]) (use False in simp)
    ultimately show ?thesis by simp
  next
    case True
    then have pc: "elem c (cell_of p)" and p0: "elem (labels st) (cell_of p) = 0" by simp_all
    from padded_in_grid[OF pad pbox pc] have pg: "in_grid xlen ylen zlen p" .
    define s where "s = structVal st + 1"
    have s0: "0 < s" "s < 2 ^ 32" using bound by (simp_all add: s_def)
    then have smod: "s mod 2 ^ 32 = s" by simp
    let ?L0 = "(labels st)\<lparr>elem := (elem (labels st))(cell_of p := s)\<rparr>"
    have st3: "set3 (labels st) p s = Inr ?L0" by (rule set3_labels_box[OF D(1) pbox])
    have sh0: "shaped ?L0 xlen ylen zlen" using D(1) by (simp add: shaped_def)
    from grow_start[OF pad s0 tab sh0 pg] obtain L' nv where
      g: "grow mc outliers c s ?L0 [] 0 0 p = Some (Inr (L', nv))" and
      sp: "struct_post mc c xlen ylen zlen s p ?L0 L' nv" by blast
    let ?b = "boxes st @ (if wn then [bounding_box s (nv @ [p])] else [])"
    have "scan_cell mc outliers wn c p st = Some (Inr \<lparr>structVal = s, labels = L', boxes = ?b\<rparr>)"
      using pc p0 g st3 smod unfolding scan_cell_def gc gl Let_def s_def[symmetric] by simp
    moreover have "scan_inv mc c xlen ylen zlen \<lparr>structVal = s, labels = L', boxes = ?b\<rparr> (seen @ [p])"
      by (rule scan_inv_new[OF pad inv box pg pc p0 s_def sp])
    ultimately show ?thesis by (simp add: s_def)
  qed
qed

lemma scan_inv_all:
  assumes pad: "padded c xlen ylen zlen" and tab: "mc \<longrightarrow> table_ok outliers"
  shows "scan_inv mc c xlen ylen zlen st seen \<Longrightarrow> \<forall>r\<in>set seen. in_box xlen ylen zlen r \<Longrightarrow>
         \<forall>r\<in>set ps. in_box xlen ylen zlen r \<Longrightarrow> structVal st + length ps < 2 ^ 32 \<Longrightarrow>
         \<exists>st'. scan mc outliers wn c ps st = Some (Inr st') \<and>
               scan_inv mc c xlen ylen zlen st' (seen @ ps) \<and>
               structVal st' \<le> structVal st + length ps"
proof (induction ps arbitrary: st seen)
  case Nil
  then show ?case by simp
next
  case (Cons p ps)
  from Cons.prems(3) have pbox: "in_box xlen ylen zlen p" by simp
  from Cons.prems(4) have b1: "structVal st + 1 < 2 ^ 32" by simp
  from scan_cell_inv[OF pad tab Cons.prems(1,2) pbox b1, of wn] obtain st1 where
    c1: "scan_cell mc outliers wn c p st = Some (Inr st1)"
    and i1: "scan_inv mc c xlen ylen zlen st1 (seen @ [p])"
    and v1: "structVal st1 \<le> structVal st + 1" by blast
  have box1: "\<forall>r\<in>set (seen @ [p]). in_box xlen ylen zlen r" using Cons.prems(2) pbox by simp
  have box2: "\<forall>r\<in>set ps. in_box xlen ylen zlen r" using Cons.prems(3) by simp
  have b2: "structVal st1 + length ps < 2 ^ 32" using Cons.prems(4) v1 by simp
  from Cons.IH[OF i1 box1 box2 b2] obtain st' where
    c2: "scan mc outliers wn c ps st1 = Some (Inr st')"
    and i2: "scan_inv mc c xlen ylen zlen st' ((seen @ [p]) @ ps)"
    and v2: "structVal st' \<le> structVal st1 + length ps" by blast
  from c1 c2 i2 v1 v2 show ?case by simp
qed

lemma length_positions: "length (positions X Y Z) = X * Y * Z"
  by (simp add: positions_def length_concat comp_def sum_list_triv)

lemma label_grid_inv:
  assumes pad: "padded c xlen ylen zlen" and tab: "mc \<longrightarrow> table_ok outliers"
    and bound: "(xlen + 1) * (ylen + 1) * (zlen + 1) < 2 ^ 32"
  shows "\<exists>st. label_grid mc outliers wn c xlen ylen zlen = Some (Inr st) \<and>
              scan_inv mc c xlen ylen zlen st (positions (xlen + 1) (ylen + 1) (zlen + 1))"
proof -
  let ?st0 = "\<lparr>structVal = 0, labels = zeros [xlen + 1, ylen + 1, zlen + 1], boxes = []\<rparr>"
  let ?ps = "positions (xlen + 1) (ylen + 1) (zlen + 1)"
  have i0: "scan_inv mc c xlen ylen zlen ?st0 []"
    by (auto simp add: scan_inv_def zeros_def shaped_def)
  have b: "\<forall>r\<in>set ?ps. in_box xlen ylen zlen r" using positions_in_box by simp
  have n: "structVal ?st0 + length ?ps < 2 ^ 32" using bound by (simp add: length_positions)
  from scan_inv_all[OF pad tab i0 _ b n, of wn] show ?thesis by (auto simp add: label_grid_def)
qed

lemma padded_pad:
  assumes "shape occ = [xlen, ylen, zlen]"
  shows "padded (pad xlen ylen zlen occ) xlen ylen zlen"
  using assms by (simp add: padded_def pad_def)

lemma elem_pad:
  assumes "shape occ = [xlen, ylen, zlen]" "in_grid xlen ylen zlen p"
  shows "elem (pad xlen ylen zlen occ) (cell_of p) = elem occ (cell_of p)"
  using assms by (cases p) (auto simp add: pad_def in_grid_def)

lemma in_grid_positions:
  "in_grid xlen ylen zlen p \<Longrightarrow> p \<in> set (positions (xlen + 1) (ylen + 1) (zlen + 1))"
proof -
  assume a: "in_grid xlen ylen zlen p"
  obtain i j k where p: "p = (i, j, k)" by (cases p) auto
  from a have "p = (int (nat i), int (nat j), int (nat k)) \<and> nat i < xlen + 1 \<and> nat j < ylen + 1 \<and>
     nat k < zlen + 1"
    by (auto simp add: p in_grid_def)
  then show ?thesis unfolding positions_set by blast
qed

lemma path26_head:
  "path26 occ xlen ylen zlen (q # ps) \<Longrightarrow> occupied_cell occ xlen ylen zlen q"
  by (cases ps) simp_all

lemma path26_same_label:
  assumes cl: "\<And>p f. in_grid xlen ylen zlen p \<Longrightarrow> 0 < elem L (cell_of p) \<Longrightarrow>
                 in_grid xlen ylen zlen (nbr p f) \<Longrightarrow> elem occ (cell_of (nbr p f)) \<Longrightarrow>
                 elem L (cell_of (nbr p f)) = elem L (cell_of p)"
    and lab: "\<And>p. in_grid xlen ylen zlen p \<Longrightarrow> elem occ (cell_of p) \<Longrightarrow> 0 < elem L (cell_of p)"
  shows "path26 occ xlen ylen zlen (p # ps) \<Longrightarrow>
         elem L (cell_of (last (p # ps))) = elem L (cell_of p) \<and> 0 < elem L (cell_of p)"
proof (induction ps arbitrary: p)
  case Nil
  then show ?case using lab[of p] by (simp add: occupied_cell_def)
next
  case (Cons q ps)
  from Cons.prems have pp: "in_grid xlen ylen zlen p" "elem occ (cell_of p)"
    and adj: "q \<in> set (map (nbr p) all_flags)" and rest: "path26 occ xlen ylen zlen (q # ps)"
    by (simp_all add: occupied_cell_def)
  from adj obtain f where f: "q = nbr p f" by auto
  from Cons.IH[OF rest] have ih: "elem L (cell_of (last (q # ps))) = elem L (cell_of q)" by simp
  have qq: "in_grid xlen ylen zlen q" "elem occ (cell_of q)"
    using path26_head[OF rest] by (simp_all add: occupied_cell_def)
  from lab[OF pp] have lp: "0 < elem L (cell_of p)" .
  from cl[OF pp(1) lp, of f] qq f have "elem L (cell_of q) = elem L (cell_of p)" by simp
  with ih lp show ?case by simp
qed

lemma first_index_eq:
  assumes "m < length xs" "xs ! m = l" "\<forall>m'<m. xs ! m' \<noteq> l"
  shows "first_index xs l = m"
proof -
  have "takeWhile (\<lambda>x. x \<noteq> l) xs = take m xs"
    by (rule takeWhile_eq_take_P_nth) (use assms in auto)
  then show ?thesis using assms(1) by (simp add: first_index_def)
qed

text \<open>
  C5. With the marching cubes extension disabled, for every occupancy grid (with fewer
  than \<open>2 ^ 32\<close> cells after padding, so that no label wraps around in the 32-bit label
  grid) the labelling ends without an exception, and the two ends of every path of
  26-connected occupied cells carry the same positive label.
\<close>

theorem connected_cells_share_label:
  assumes "shape occ = [xlen, ylen, zlen]"
    and "(xlen + 1) * (ylen + 1) * (zlen + 1) < 2 ^ 32"
    and "path26 occ xlen ylen zlen (p # ps)"
  shows "\<exists>st. label_grid False outliers wn (pad xlen ylen zlen occ) xlen ylen zlen = Some (Inr st) \<and>
              elem (labels st) (cell_of (last (p # ps))) = elem (labels st) (cell_of p) \<and>
              0 < elem (labels st) (cell_of p)"
proof -
  let ?c = "pad xlen ylen zlen occ"
  note pad = padded_pad[OF assms(1)]
  have tab: "False \<longrightarrow> table_ok outliers" by simp
  from label_grid_inv[OF pad tab assms(2), of wn] obtain st where
    lg: "label_grid False outliers wn ?c xlen ylen zlen = Some (Inr st)" and
    inv: "scan_inv False ?c xlen ylen zlen st (positions (xlen + 1) (ylen + 1) (zlen + 1))" by blast
  note D = scan_invD[OF inv]
  have cl: "elem (labels st) (cell_of (nbr q f)) = elem (labels st) (cell_of q)"
    if "in_grid xlen ylen zlen q" "0 < elem (labels st) (cell_of q)"
      "in_grid xlen ylen zlen (nbr q f)" "elem occ (cell_of (nbr q f))" for q f
    using D(4)[of q f] that elem_pad[OF assms(1) that(3)] by simp
  have lab: "0 < elem (labels st) (cell_of q)"
    if "in_grid xlen ylen zlen q" "elem occ (cell_of q)" for q
    using D(3)[OF in_grid_positions[OF that(1)] that(1)] elem_pad[OF assms(1) that(1)] that(2) by simp
  from path26_same_label[of xlen ylen zlen "labels st" occ p ps, OF cl lab assms(3)] lg
  show ?thesis by simp
qed

theorem connected_cells_share_label_witness:
  "\<exists>st. label_grid False (\<lambda>_. []) False
          (pad 2 2 2 \<lparr>shape = [2, 2, 2], elem = (\<lambda>ix. ix = [0, 0, 0] \<or> ix = [1, 1, 1])\<rparr>) 2 2 2
        = Some (Inr st) \<and>
        elem (labels st) [1, 1, 1] = elem (labels st) [0, 0, 0] \<and> 0 < elem (labels st) [0, 0, 0]"
  using connected_cells_share_label[of "\<lparr>shape = [2, 2, 2], elem = (\<lambda>ix. ix = [0, 0, 0] \<or> ix = [1, 1, 1])\<rparr>"
      2 2 2 "(0, 0, 0)" "[(1, 1, 1)]" "\<lambda>_. []" False]
  by (simp add: occupied_cell_def in_grid_def nbr_def all_flags_def)

text \<open>
  C8. The labelling is a function of the occupancy grid: for every occupancy grid (fewer
  than \<open>2 ^ 32\<close> cells after padding; with the marching cubes extension, a table that
  names only corners set in the case number) it ends with one result and no exception.
  In that result every label from 1 to \<open>_structVal\<close> occurs, no label exceeds
  \<open>_structVal\<close>, and a smaller label has its first cell earlier in the scan order.
\<close>

theorem labels_in_first_encounter_order:
  assumes "shape occ = [xlen, ylen, zlen]"
    and "(xlen + 1) * (ylen + 1) * (zlen + 1) < 2 ^ 32"
    and "mc \<longrightarrow> table_ok outliers"
  shows "\<exists>st. label_grid mc outliers wn (pad xlen ylen zlen occ) xlen ylen zlen = Some (Inr st) \<and>
           (\<forall>l. 0 < l \<and> l \<le> structVal st \<longrightarrow> l \<in> set (scan_labels (labels st) xlen ylen zlen)) \<and>
           (\<forall>l\<in>set (scan_labels (labels st) xlen ylen zlen). l \<le> structVal st) \<and>
           (\<forall>l1 l2. 0 < l1 \<and> l1 < l2 \<and> l2 \<le> structVal st \<longrightarrow>
              first_index (scan_labels (labels st) xlen ylen zlen) l1
                < first_index (scan_labels (labels st) xlen ylen zlen) l2)"
proof -
  let ?c = "pad xlen ylen zlen occ"
  let ?ps = "positions (xlen + 1) (ylen + 1) (zlen + 1)"
  note pad = padded_pad[OF assms(1)]
  from label_grid_inv[OF pad assms(3) assms(2), of wn] obtain st where
    lg: "label_grid mc outliers wn ?c xlen ylen zlen = Some (Inr st)" and
    inv: "scan_inv mc ?c xlen ylen zlen st ?ps" by blast
  note D = scan_invD[OF inv]
  let ?sl = "scan_labels (labels st) xlen ylen zlen"
  have first: "\<exists>m<length ?sl. ?sl ! m = l \<and> (\<forall>m'<m. ?sl ! m' < l) \<and> first_index ?sl l = m"
    if l: "0 < l" "l \<le> structVal st" for l
  proof -
    from D(5)[OF l] obtain m where m: "m < length ?ps" "elem (labels st) (cell_of (?ps ! m)) = l"
      "\<forall>m'<m. elem (labels st) (cell_of (?ps ! m')) < l" by blast
    have a: "m < length ?sl" "?sl ! m = l" "\<forall>m'<m. ?sl ! m' < l"
      using m by (simp_all add: scan_labels_def)
    then have "\<forall>m'<m. ?sl ! m' \<noteq> l" by auto
    from first_index_eq[OF a(1,2) this] a show ?thesis by blast
  qed
  have occurs: "\<forall>l. 0 < l \<and> l \<le> structVal st \<longrightarrow> l \<in> set ?sl"
  proof (intro allI impI)
    fix l assume "0 < l \<and> l \<le> structVal st"
    with first[of l] obtain m where "m < length ?sl" "?sl ! m = l" by blast
    then show "l \<in> set ?sl" by (metis nth_mem)
  qed
  have bounded: "\<forall>l\<in>set ?sl. l \<le> structVal st"
  proof
    fix l assume "l \<in> set ?sl"
    then obtain q where q: "l = elem (labels st) q" by (auto simp add: scan_labels_def)
    show "l \<le> structVal st"
    proof (cases "0 < l")
      case True
      with D(2)[of q] q show ?thesis by simp
    next
      case False
      then show ?thesis by simp
    qed
  qed
  have mono: "\<forall>l1 l2. 0 < l1 \<and> l1 < l2 \<and> l2 \<le> structVal st \<longrightarrow> first_index ?sl l1 < first_index ?sl l2"
  proof (intro allI impI)
    fix l1 l2 assume a: "0 < l1 \<and> l1 < l2 \<and> l2 \<le> structVal st"
    from first[of l1] a obtain m1 where m1: "m1 < length ?sl" "?sl ! m1 = l1"
      "\<forall>m'<m1. ?sl ! m' < l1" "first_index ?sl l1 = m1" by auto
    from first[of l2] a obtain m2 where m2: "m2 < length ?sl" "?sl ! m2 = l2"
      "\<forall>m'<m2. ?sl ! m' < l2" "first_index ?sl l2 = m2" by auto
    have "m1 < m2"
    proof (rule ccontr)
      assume "\<not> m1 < m2"
      then have "m2 = m1 \<or> m2 < m1" by auto
      then show False
      proof
        assume "m2 = m1"
        with m1(2) m2(2) a show False by simp
      next
        assume "m2 < m1"
        with m1(3) m2(2) a show False by auto
      qed
    qed
    with m1(4) m2(4) show "first_index ?sl l1 < first_index ?sl l2" by simp
  qed
  from lg occurs bounded mono show ?thesis by blast
qed

theorem labels_in_first_encounter_order_witness:
  "\<exists>st. label_grid True (\<lambda>code. if code = 40 then [[3], [5]] else []) False
          (pad 2 2 2 \<lparr>shape = [2, 2, 2], elem = (\<lambda>ix. ix = [0, 0, 0] \<or> ix = [1, 1, 1])\<rparr>) 2 2 2
        = Some (Inr st) \<and>
        (\<forall>l. 0 < l \<and> l \<le> structVal st \<longrightarrow> l \<in> set (scan_labels (labels st) 2 2 2)) \<and>
        (\<forall>l\<in>set (scan_labels (labels st) 2 2 2). l \<le> structVal st) \<and>
        (\<forall>l1 l2. 0 < l1 \<and> l1 < l2 \<and> l2 \<le> structVal st \<longrightarrow>
           first_index (scan_labels (labels st) 2 2 2) l1 < first_index (scan_labels (labels st) 2 2 2) l2)"
  using labels_in_first_encounter_order[of "\<lparr>shape = [2, 2, 2], elem = (\<lambda>ix. ix = [0, 0, 0] \<or> ix = [1, 1, 1])\<rparr>"
      2 2 2 True "\<lambda>code. if code = 40 then [[3], [5]] else []" False]
  by (simp add: table_ok_def bit_iff_odd)

lemma label_counts_eq:
  "label_counts xs = map (\<lambda>l. (l, count_list xs l)) (sort (remdups xs))"
  by (simp add: label_counts_def np_unique_def Let_def zip_map2 zip_same_conv_map)

lemma structure_counts_eq:
  "structure_counts xs = map (count_list xs) (filter (\<lambda>l. 0 < l) (sort (remdups xs)))"
  by (simp add: structure_counts_def label_counts_eq filter_map comp_def)

lemma count_list_filter:
  "count_list (filter P xs) l = (if P l then count_list xs l else 0)"
  by (induction xs) auto

lemma total_volume_eq: "total_volume xs = length (filter (\<lambda>l. 0 < l) xs)"
proof -
  let ?ds = "filter (\<lambda>l. 0 < l) (sort (remdups xs))"
  have d: "distinct ?ds" by simp
  have s: "set ?ds = {l \<in> set xs. 0 < l}" by auto
  have "total_volume xs = sum_list (map (count_list xs) ?ds)"
    by (simp add: total_volume_def structure_counts_eq)
  also have "\<dots> = sum (count_list xs) (set ?ds)"
    using sum.distinct_set_conv_list[OF d, of "count_list xs"] by simp
  also have "\<dots> = sum (count_list (filter (\<lambda>l. 0 < l) xs)) (set ?ds)"
    by (rule sum.cong) (auto simp add: count_list_filter)
  also have "\<dots> = length (filter (\<lambda>l. 0 < l) xs)"
    by (rule sum_count_set) (auto simp add: s)
  finally show ?thesis .
qed

lemma count_of_label_eq: "count_of_label xs l = count_list xs l"
proof -
  have "map_of (label_counts xs) = (Some \<circ> count_list xs) |` set xs"
    unfolding label_counts_eq by (simp add: map_of_map_restrict)
  then show ?thesis
    by (auto simp add: count_of_label_def restrict_map_def count_list_0_iff)
qed

lemma crop_ravel_cells: "crop_ravel A xlen ylen zlen = map (elem A) (cells xlen ylen zlen)"
  by (simp add: crop_ravel_def cells_def map_concat comp_def)

lemma cells_set:
  "q \<in> set (cells xlen ylen zlen) \<Longrightarrow>
   \<exists>p. in_grid xlen ylen zlen p \<and> q = cell_of p"
proof -
  assume "q \<in> set (cells xlen ylen zlen)"
  then obtain i j k where q: "q = [i, j, k]" "i < xlen" "j < ylen" "k < zlen"
    by (auto simp add: cells_def)
  then have "in_grid xlen ylen zlen (int i, int j, int k) \<and> q = cell_of (int i, int j, int k)"
    by (simp add: in_grid_def)
  then show ?thesis by blast
qed

lemma labelled_iff_occupied:
  assumes sh: "shape occ = [xlen, ylen, zlen]"
    and inv: "scan_inv mc (pad xlen ylen zlen occ) xlen ylen zlen st
                (positions (xlen + 1) (ylen + 1) (zlen + 1))"
    and q: "q \<in> set (cells xlen ylen zlen)"
  shows "(0 < elem (labels st) q) = elem occ q"
proof -
  note D = scan_invD[OF inv]
  from cells_set[OF q] obtain p where p: "in_grid xlen ylen zlen p" "q = cell_of p" by blast
  note e = elem_pad[OF sh p(1)]
  show ?thesis
  proof
    assume "0 < elem (labels st) q"
    from D(2)[OF this] e p(2) show "elem occ q" by simp
  next
    assume "elem occ q"
    with D(3)[OF in_grid_positions[OF p(1)] p(1)] e p(2) show "0 < elem (labels st) q" by simp
  qed
qed

text \<open>
  C4. For every occupancy grid (fewer than \<open>2 ^ 32\<close> cells after padding, so that no
  label wraps around in the 32-bit label grid), with the marching cubes extension
  disabled or enabled (then with a table that names only corners set in the case
  number), the labelling ends without an exception, the counts of the labels greater
  than 0 in the cropped label grid add up to the number of true cells of the cropped
  occupancy grid, and the count of label 0 is the number of false cells.
\<close>

theorem label_counts_conserve_cells:
  assumes "shape occ = [xlen, ylen, zlen]"
    and "(xlen + 1) * (ylen + 1) * (zlen + 1) < 2 ^ 32"
    and "mc \<longrightarrow> table_ok outliers"
  shows "\<exists>st. label_grid mc outliers wn (pad xlen ylen zlen occ) xlen ylen zlen = Some (Inr st) \<and>
           total_volume (crop_ravel (labels st) xlen ylen zlen)
             = length (filter (\<lambda>b. b) (crop_ravel occ xlen ylen zlen)) \<and>
           count_of_label (crop_ravel (labels st) xlen ylen zlen) 0
             = length (filter (\<lambda>b. \<not> b) (crop_ravel occ xlen ylen zlen))"
proof -
  let ?c = "pad xlen ylen zlen occ"
  note pad = padded_pad[OF assms(1)]
  from label_grid_inv[OF pad assms(3) assms(2), of wn] obtain st where
    lg: "label_grid mc outliers wn ?c xlen ylen zlen = Some (Inr st)" and
    inv: "scan_inv mc ?c xlen ylen zlen st (positions (xlen + 1) (ylen + 1) (zlen + 1))" by blast
  let ?g = "crop_ravel (labels st) xlen ylen zlen"
  let ?cs = "cells xlen ylen zlen"
  note iff = labelled_iff_occupied[OF assms(1) inv]
  have "total_volume ?g = length (filter (\<lambda>q. 0 < elem (labels st) q) ?cs)"
    by (simp add: total_volume_eq crop_ravel_cells filter_map comp_def)
  also have "\<dots> = length (filter (\<lambda>q. elem occ q) ?cs)"
    using iff by (simp cong: filter_cong)
  also have "\<dots> = length (filter (\<lambda>b. b) (crop_ravel occ xlen ylen zlen))"
    by (simp add: crop_ravel_cells filter_map comp_def)
  finally have t: "total_volume ?g = length (filter (\<lambda>b. b) (crop_ravel occ xlen ylen zlen))" .
  have "count_of_label ?g 0 = length (filter (\<lambda>q. 0 = elem (labels st) q) ?cs)"
    by (simp add: count_of_label_eq count_list_eq_length_filter crop_ravel_cells filter_map comp_def)
  also have "\<dots> = length (filter (\<lambda>q. \<not> elem occ q) ?cs)"
  proof -
    have "(0 = elem (labels st) q) = (\<not> elem occ q)" if "q \<in> set ?cs" for q
      using iff[OF that] by (cases "elem (labels st) q") simp_all
    then show ?thesis by (simp cong: filter_cong)
  qed
  also have "\<dots> = length (filter (\<lambda>b. \<not> b) (crop_ravel occ xlen ylen zlen))"
    by (simp add: crop_ravel_cells filter_map comp_def)
  finally have z: "count_of_label ?g 0 = length (filter (\<lambda>b. \<not> b) (crop_ravel occ xlen ylen zlen))" .
  from lg t z show ?thesis by blast
qed

theorem label_counts_conserve_cells_witness:
  "\<exists>st. label_grid True (\<lambda>code. if code = 40 then [[3], [5]] else []) False
          (pad 2 2 2 \<lparr>shape = [2, 2, 2], elem = (\<lambda>ix. ix = [0, 0, 0] \<or> ix = [1, 1, 1])\<rparr>) 2 2 2
        = Some (Inr st) \<and>
        total_volume (crop_ravel (labels st) 2 2 2) = 2 \<and>
        count_of_label (crop_ravel (labels st) 2 2 2) 0 = 6"
proof -
  let ?occ = "\<lparr>shape = [2, 2, 2], elem = (\<lambda>ix. ix = [0, 0, 0] \<or> ix = [1, 1, 1::nat])\<rparr>"
  have t: "length (filter (\<lambda>b. b) (crop_ravel ?occ 2 2 2)) = 2"
    by (simp add: crop_ravel_def upt_rec)
  have f: "length (filter (\<lambda>b. \<not> b) (crop_ravel ?occ 2 2 2)) = 6"
    by (simp add: crop_ravel_def upt_rec)
  have "table_ok (\<lambda>code. if code = 40 then [[3], [5]] else [])"
    by (simp add: table_ok_def bit_iff_odd)
  then show ?thesis
    using label_counts_conserve_cells[of ?occ 2 2 2 True "\<lambda>code. if code = 40 then [[3], [5]] else []" False]
    unfolding t f by simp
qed

lemma remdups_replicate_Suc: "remdups (replicate (Suc n) x) = [x]"
  by (induction n) auto

text \<open>
  C1. The statistics take \<open>Vmax\<close> as the second greatest of the counts of all labels,
  label 0 included, and \<open>Vall\<close> as the sum of all counts but the greatest. For a label
  grid that is all 0 (an all-empty occupancy grid) \<open>countsall[::-1][1]\<close> raises
  \<open>IndexError\<close>, where the contract asks for the record (threshold, 0, 0); for the label
  grid \<open>[1, 1, 0]\<close> they give (1, 1), where the greatest count among the labels greater
  than 0 and the sum of these counts are both 2.
\<close>

theorem percolation_stats_not_structure_counts:
  "percolation_stats (replicate (Suc n) 0) = Inl IndexError \<and>
   max_structure_volume (replicate (Suc n) 0) = 0 \<and> total_volume (replicate (Suc n) 0) = 0 \<and>
   percolation_stats [1, 1, 0] = Inr (1, 1) \<and>
   max_structure_volume [1, 1, 0] = 2 \<and> total_volume [1, 1, 0] = 2"
proof -
  have a: "percolation_stats (replicate (Suc n) 0) = Inl IndexError"
    by (simp add: percolation_stats_def np_unique_def remdups_replicate_Suc del: replicate.simps)
  have b: "structure_counts (replicate (Suc n) 0) = []"
    by (simp add: structure_counts_eq remdups_replicate_Suc del: replicate.simps)
  have c: "percolation_stats [1, 1, 0] = Inr (1, 1)"
    by (simp add: percolation_stats_def np_unique_def)
  have d: "structure_counts [1, 1, 0] = [2]"
    by (simp add: structure_counts_eq)
  from a b c d show ?thesis by (simp add: max_structure_volume_def total_volume_def)
qed

lemmas run_defs = extractStructures_def one_threshold_def np_reshape_def asize_def from_list_def
  threshold_def occupied_def pad_def label_grid_def positions_def zeros_def scan_cell_def
  get3_def set3_def norm_axis_def crop_ravel_def percolation_stats_def np_unique_def
  as_npval_def Let_def

lemma all_empty_run_raises:
  "extractStructures mc outliers [Num 7] (from_list [FloatV (Num 5), FloatV (Num 0)]) 1 1 2
     True False True = Some (Inl IndexError)"
  by (simp add: run_defs upt_rec)


lemma asize_padded_ne: "prod_list [xlen + 1, ylen + 1, zlen + 1] \<noteq> xlen * ylen * (zlen::nat)"
  by (simp add: algebra_simps)

lemma one_threshold_local_c:
  assumes "one_threshold mc outliers xlen ylen zlen zFastest wn wp t rs = Some (Inr rs')"
  shows "shape (local_c rs') = [xlen + 1, ylen + 1, zlen + 1]"
  using assms
  by (auto simp add: one_threshold_def Let_def as_npval_def pad_def
      split: sum.splits option.splits prod.splits)

lemma next_round_raises:
  assumes "one_threshold mc outliers xlen ylen zlen zFastest wn wp t rs = Some (Inr rs')"
  shows "one_threshold mc outliers xlen ylen zlen zFastest wn wp t' rs' = Some (Inl ValueError)"
proof -
  have "asize (local_c rs') \<noteq> xlen * ylen * zlen"
    using one_threshold_local_c[OF assms] asize_padded_ne[of xlen ylen zlen]
    by (simp only: asize_def) simp
  then show ?thesis by (simp add: one_threshold_def np_reshape_def)
qed


lemma percolation_stats_pair: "0 < a \<Longrightarrow> percolation_stats [a, 0] = Inr (1, 1)"
  by (simp add: percolation_stats_def np_unique_def)

text \<open>
  C6. Every round of the threshold loop assigns the local variable \<open>c\<close>: the reshaped
  field, then the occupancy grid, then the padded occupancy grid. The next round
  reshapes that padded boolean grid, not the scalar field the caller passed, and since
  it has \<open>(xlen + 1) * (ylen + 1) * (zlen + 1)\<close> elements the reshape raises
  \<open>ValueError\<close>: with the thresholds 1 and 2 on the field \<open>[5, 0]\<close> the call ends with
  that exception in the second round.
\<close>

theorem second_threshold_raises:
  "extractStructures False (\<lambda>_. []) [Num 1, Num 2] (from_list [FloatV (Num 5), FloatV (Num 0)])
     1 1 2 True False False = Some (Inl ValueError)"
proof -
  let ?fld = "from_list [FloatV (Num 5), FloatV (Num 0)]"
  let ?rs0 = "\<lparr>local_c = ?fld, structValuedGrid = None, percolation = [],
               neighborInformation = []\<rparr>"
  obtain c1 where r: "np_reshape True ?fld 1 1 2 = Inr c1" and sh: "shape c1 = [1, 1, 2]"
    and e0: "elem c1 [0, 0, 0] = FloatV (Num 5)" and e1: "elem c1 [0, 0, 1] = FloatV (Num 0)"
    by (simp add: np_reshape_def asize_def from_list_def)
  let ?occ = "threshold (Num 1) c1"
  have osh: "shape ?occ = [1, 1, 2]" using sh by (simp add: threshold_def)
  have o0: "elem ?occ [0, 0, 0]" and o1: "\<not> elem ?occ [0, 0, 1]"
    using e0 e1 by (simp_all add: threshold_def occupied_def)
  have tab: "False \<longrightarrow> table_ok (\<lambda>_. [])" by simp
  have bound: "(1 + 1) * (1 + 1) * (2 + 1) < (2::nat) ^ 32" by simp
  from label_grid_inv[OF padded_pad[OF osh] tab bound, of False] obtain st where
    lg: "label_grid False (\<lambda>_. []) False (pad 1 1 2 ?occ) 1 1 2 = Some (Inr st)" and
    inv: "scan_inv False (pad 1 1 2 ?occ) 1 1 2 st (positions (1 + 1) (1 + 1) (2 + 1))" by blast
  have cs: "cells 1 1 2 = [[0, 0, 0], [0, 0, 1]]" by (simp add: cells_def upt_rec)
  have m0: "[0, 0, 0] \<in> set (cells 1 1 2)" and m1: "[0, 0, 1] \<in> set (cells 1 1 2)"
    by (simp_all add: cells_def upt_rec)
  have l0: "0 < elem (labels st) [0, 0, 0]"
    using labelled_iff_occupied[OF osh inv m0] o0 by simp
  have l1: "elem (labels st) [0, 0, 1] = 0"
    using labelled_iff_occupied[OF osh inv m1] o1 by simp
  have g: "crop_ravel (labels st) 1 1 2 = [elem (labels st) [0, 0, 0], 0]"
    using l1 by (simp add: crop_ravel_def upt_rec)
  have "\<exists>rs1. one_threshold False (\<lambda>_. []) 1 1 2 True False False (Num 1) ?rs0 = Some (Inr rs1)"
    using r lg g percolation_stats_pair[OF l0] by (simp add: one_threshold_def Let_def)
  then obtain rs1 where
    one: "one_threshold False (\<lambda>_. []) 1 1 2 True False False (Num 1) ?rs0 = Some (Inr rs1)" by blast
  from next_round_raises[OF one, of "Num 2"] one show ?thesis
    by (simp add: extractStructures_def)
qed

lemma try_link_skip:
  "get3 c (add3 p (offset f)) = Inl e \<Longrightarrow> try_link c s p f st = st"
  by (simp add: try_link_def Let_def)

lemma try_link_false:
  "get3 c (add3 p (offset f)) = Inr False \<Longrightarrow> try_link c s p f st = st"
  by (simp add: try_link_def Let_def)

lemma get3_index_error:
  "shape a = [X, Y, Z] \<Longrightarrow>
   (get3 a (i, j, k) = Inl IndexError) =
     (\<not> (- int X \<le> i \<and> i < int X \<and> - int Y \<le> j \<and> j < int Y \<and> - int Z \<le> k \<and> k < int Z))"
  by (auto simp add: get3_def norm_axis_def Let_def split: sum.splits)

text \<open>
  C2. A neighbour index raises \<open>IndexError\<close>, which skips the guarded block with the
  state unchanged, exactly when a coordinate is at least the length of its axis or below
  minus that length. Index \<open>-1\<close> is in range: it is the last plane of the axis, the
  added layer of the padded grid. For a cell of the cropped grid every one of the 26
  neighbour indices is read, none is skipped: the read gives the occupancy of the
  neighbour when it lies in the cropped grid and False (a cell of the added layer)
  otherwise, and in the second case the block changes nothing.
\<close>

theorem neighbour_reads:
  assumes "shape occ = [xlen, ylen, zlen]" and "in_grid xlen ylen zlen p"
  shows "get3 (pad xlen ylen zlen occ) (nbr p f) =
           Inr (in_grid xlen ylen zlen (nbr p f) \<and> elem occ (cell_of (nbr p f))) \<and>
         (\<not> in_grid xlen ylen zlen (nbr p f) \<longrightarrow> try_link (pad xlen ylen zlen occ) s p f st = st) \<and>
         (\<forall>c' p' e. get3 c' (nbr p' f) = Inl e \<longrightarrow> try_link c' s p' f st = st) \<and>
         (\<forall>i j k. (get3 (pad xlen ylen zlen occ) (i, j, k) = Inl IndexError) =
            (\<not> (- int (xlen + 1) \<le> i \<and> i < int (xlen + 1) \<and> - int (ylen + 1) \<le> j \<and>
                j < int (ylen + 1) \<and> - int (zlen + 1) \<le> k \<and> k < int (zlen + 1))))"
proof -
  note pad = padded_pad[OF assms(1)]
  have g: "get3 (pad xlen ylen zlen occ) (nbr p f) =
           Inr (in_grid xlen ylen zlen (nbr p f) \<and> elem occ (cell_of (nbr p f)))"
    using get3_near[OF pad assms(2), of f] elem_pad[OF assms(1), of "nbr p f"]
    by (auto simp add: nbr_def)
  have s: "\<not> in_grid xlen ylen zlen (nbr p f) \<longrightarrow> try_link (pad xlen ylen zlen occ) s p f st = st"
    using g try_link_false[of "pad xlen ylen zlen occ" p f s st] by (simp add: nbr_def)
  have e: "\<forall>c' p' e. get3 c' (nbr p' f) = Inl e \<longrightarrow> try_link c' s p' f st = st"
    using try_link_skip by (simp add: nbr_def)
  have sh: "shape (pad xlen ylen zlen occ) = [xlen + 1, ylen + 1, zlen + 1]" by (simp add: pad_def)
  from g s e get3_index_error[OF sh] show ?thesis by blast
qed

theorem neighbour_reads_witness:
  "get3 (pad 1 1 1 \<lparr>shape = [1, 1, 1], elem = (\<lambda>_. True)\<rparr>) (nbr (0, 0, 0) F2) = Inr False \<and>
   try_link (pad 1 1 1 \<lparr>shape = [1, 1, 1], elem = (\<lambda>_. True)\<rparr>) 1 (0, 0, 0) F2
     \<lparr>grid = zeros [2, 2, 2], aux = (\<lambda>_. 0), flags = (\<lambda>_. False)\<rparr>
     = \<lparr>grid = zeros [2, 2, 2], aux = (\<lambda>_. 0), flags = (\<lambda>_. False)\<rparr>"
  using neighbour_reads[of "\<lparr>shape = [1, 1, 1], elem = (\<lambda>_. True)\<rparr>" 1 1 1 "(0, 0, 0)" F2 1
      "\<lparr>grid = zeros [2, 2, 2], aux = (\<lambda>_. 0), flags = (\<lambda>_. False)\<rparr>"]
  by (simp add: in_grid_def nbr_def)

theorem lower_boundary_is_read:
  "nbr (0, 0, 0) F2 = (- 1, 0, 0) \<and>
   norm3 [2, 2, 2] (- 1, 0, 0) = Inr [1, 0, 0] \<and>
   get3 (pad 1 1 1 \<lparr>shape = [1, 1, 1], elem = (\<lambda>_. True)\<rparr>) (- 1, 0, 0) = Inr False \<and>
   get3 \<lparr>shape = [2, 2, 2], elem = (\<lambda>ix. ix = [1, 0, 0])\<rparr> (- 1, 0, 0) = Inr True"
  by (simp add: nbr_def get3_def pad_def norm_axis_def)










lemmas resolver_defs = resolver_def cubes_def find_case_number_def resolve_cube_def
  resolve_subset_def reset_val_def remove_table_def anchor_def new_neighbors_def all_flags_def
  set3_def norm_axis_def Let_def upt_rec

































lemma reduce_cell_3:
  "reduce_cell siz2 [i, j, k] (a, s) =
     (a\<lparr>elem := (elem a)([i, j, k] := or8 a siz2 [i, j, k])\<rparr>,
      s + (if or8 a siz2 [i, j, k] then 1 else 0))"
  by (simp add: reduce_cell_def or8_def Let_def)

lemma not_dvd_half: "0 < s \<Longrightarrow> 2 * s dvd i \<Longrightarrow> \<not> 2 * s dvd (i + (s::nat))"
proof
  assume s: "0 < s" and a: "2 * s dvd i" and b: "2 * s dvd (i + s)"
  from a b have "2 * s dvd s" using dvd_add_right_iff by blast
  with s show False by (auto dest: dvd_imp_le)
qed

lemma aligned_iff:
  "aligned w s ix =
     (\<exists>i j k. ix = [i, j, k] \<and> i < w \<and> j < w \<and> k < w \<and> s dvd i \<and> s dvd j \<and> s dvd k)"
  by (auto simp add: aligned_def length_Suc_conv numeral_3_eq_3)

lemma or8_update_other:
  assumes "0 < siz2" "aligned w (2 * siz2) q" "aligned w (2 * siz2) x" "q \<noteq> x"
  shows "or8 (a\<lparr>elem := (elem a)(x := v)\<rparr>) siz2 q = or8 a siz2 q"
proof -
  from assms(2) obtain i j k where q: "q = [i, j, k]" "2 * siz2 dvd i" "2 * siz2 dvd j" "2 * siz2 dvd k"
    by (auto simp add: aligned_iff)
  from assms(3) obtain i' j' k' where x: "x = [i', j', k']" "2 * siz2 dvd i'" "2 * siz2 dvd j'" "2 * siz2 dvd k'"
    by (auto simp add: aligned_iff)
  note n = not_dvd_half[OF assms(1) q(2)] not_dvd_half[OF assms(1) q(3)] not_dvd_half[OF assms(1) q(4)]
  have "[i + siz2, j, k] \<noteq> x" "[i, j + siz2, k] \<noteq> x" "[i + siz2, j + siz2, k] \<noteq> x"
    "[i, j, k + siz2] \<noteq> x" "[i + siz2, j, k + siz2] \<noteq> x" "[i, j + siz2, k + siz2] \<noteq> x"
    "[i + siz2, j + siz2, k + siz2] \<noteq> x"
    using n x by auto
  with assms(4) q(1) show ?thesis by (simp add: or8_def)
qed

lemma fold_reduce_cell:
  assumes "0 < siz2" "distinct ps" "\<forall>ix\<in>set ps. aligned w (2 * siz2) ix"
  shows "fold (reduce_cell siz2) ps (a, s) =
           (a\<lparr>elem := (\<lambda>q. if q \<in> set ps then or8 a siz2 q else elem a q)\<rparr>,
            s + length (filter (or8 a siz2) ps))"
  using assms(2,3)
proof (induction ps arbitrary: a s)
  case Nil
  then show ?case by simp
next
  case (Cons x xs)
  from Cons.prems(2) obtain i j k where x: "x = [i, j, k]"
    by (auto simp add: aligned_iff)
  let ?a1 = "a\<lparr>elem := (elem a)(x := or8 a siz2 x)\<rparr>"
  have same: "or8 ?a1 siz2 q = or8 a siz2 q" if "q \<in> set xs" for q
  proof -
    from that Cons.prems have "aligned w (2 * siz2) q" "aligned w (2 * siz2) x" "q \<noteq> x" by auto
    from or8_update_other[OF assms(1) this] show ?thesis .
  qed
  have d: "distinct xs" "\<forall>ix\<in>set xs. aligned w (2 * siz2) ix" using Cons.prems by simp_all
  have f: "filter (or8 ?a1 siz2) xs = filter (or8 a siz2) xs"
    by (rule filter_cong) (simp_all add: same)
  have e: "(\<lambda>q. if q \<in> set xs then or8 ?a1 siz2 q else elem ?a1 q) =
           (\<lambda>q. if q \<in> set (x # xs) then or8 a siz2 q else elem a q)"
    using same by (auto simp add: fun_eq_iff)
  have "fold (reduce_cell siz2) (x # xs) (a, s) =
        fold (reduce_cell siz2) xs (?a1, s + (if or8 a siz2 x then 1 else 0))"
    by (simp add: x reduce_cell_3)
  also have "\<dots> = (?a1\<lparr>elem := (\<lambda>q. if q \<in> set xs then or8 ?a1 siz2 q else elem ?a1 q)\<rparr>,
        s + (if or8 a siz2 x then 1 else 0) + length (filter (or8 ?a1 siz2) xs))"
    by (rule Cons.IH[OF d])
  also have "\<dots> = (a\<lparr>elem := (\<lambda>q. if q \<in> set (x # xs) then or8 a siz2 q else elem a q)\<rparr>,
        s + length (filter (or8 a siz2) (x # xs)))"
    unfolding e f by simp
  finally show ?case .
qed

lemma triples_product:
  "concat (map (\<lambda>i. concat (map (\<lambda>j. map (\<lambda>k. [i, j, k]) zs) ys)) xs) =
     map (\<lambda>(i, j, k). [i, j, k]) (List.product xs (List.product ys zs))"
proof (induction xs)
  case Nil
  then show ?case by simp
next
  case (Cons x xs)
  have "concat (map (\<lambda>j. map (\<lambda>k. [x, j, k]) zs) ys) =
        map (\<lambda>(i, j, k). [i, j, k]) (map (Pair x) (List.product ys zs))"
    by (induction ys) (simp_all add: comp_def)
  with Cons show ?case by simp
qed

lemma box_range_count: "0 < s \<Longrightarrow> 0 < k \<Longrightarrow> (k * s - s) div s + 1 = (k::nat)"
proof -
  assume s: "0 < s" and k: "0 < k"
  have "k * s - s = (k - 1) * s" by (simp add: diff_mult_distrib)
  with s k show ?thesis by simp
qed

lemma box_range_pow:
  assumes "m \<le> p"
  shows "box_range (2 ^ p) (2 ^ m) = map (\<lambda>t. t * 2 ^ m) [0..<2 ^ (p - m)]"
proof -
  have le: "(2::nat) ^ m \<le> 2 ^ p" using assms by simp
  have e: "(2::nat) ^ p = 2 ^ (p - m) * 2 ^ m" using assms by (simp flip: power_add)
  have "((2::nat) ^ p - 2 ^ m) div 2 ^ m + 1 = 2 ^ (p - m)"
    unfolding e by (rule box_range_count) simp_all
  with le show ?thesis by (simp add: box_range_def)
qed

lemma set_box_range:
  assumes "m \<le> p"
  shows "set (box_range (2 ^ p) (2 ^ m)) = {i. i < 2 ^ p \<and> 2 ^ m dvd i}"
proof (intro set_eqI iffI)
  fix i :: nat assume "i \<in> set (box_range (2 ^ p) (2 ^ m))"
  then obtain t where t: "i = t * 2 ^ m" "t < 2 ^ (p - m)"
    unfolding box_range_pow[OF assms] by auto
  have e: "(2::nat) ^ p = 2 ^ (p - m) * 2 ^ m" using assms by (simp flip: power_add)
  from t have "i < 2 ^ p" unfolding e by simp
  with t show "i \<in> {i. i < 2 ^ p \<and> 2 ^ m dvd i}" by simp
next
  fix i :: nat assume "i \<in> {i. i < 2 ^ p \<and> 2 ^ m dvd i}"
  then obtain t where t: "i = t * 2 ^ m" "i < 2 ^ p" by (auto simp add: dvd_def mult.commute)
  have e: "(2::nat) ^ p = 2 ^ (p - m) * 2 ^ m" using assms by (simp flip: power_add)
  from t have "t < 2 ^ (p - m)" unfolding e by simp
  with t show "i \<in> set (box_range (2 ^ p) (2 ^ m))"
    unfolding box_range_pow[OF assms] by auto
qed

lemma distinct_box_range: "m \<le> p \<Longrightarrow> distinct (box_range (2 ^ p) (2 ^ m))"
  unfolding box_range_pow by (simp add: distinct_map inj_on_def)

lemma set_box_positions:
  assumes "m \<le> p"
  shows "set (box_positions (2 ^ p) (2 ^ m)) = {ix. aligned (2 ^ p) (2 ^ m) ix}"
proof -
  have "set (box_positions (2 ^ p) (2 ^ m)) =
        {[i, j, k] | i j k. i \<in> set (box_range (2 ^ p) (2 ^ m)) \<and>
           j \<in> set (box_range (2 ^ p) (2 ^ m)) \<and> k \<in> set (box_range (2 ^ p) (2 ^ m))}"
    unfolding box_positions_def by fastforce
  also have "\<dots> = {ix. aligned (2 ^ p) (2 ^ m) ix}"
    unfolding set_box_range[OF assms] by (auto simp add: aligned_iff)
  finally show ?thesis .
qed

lemma distinct_box_positions: "m \<le> p \<Longrightarrow> distinct (box_positions (2 ^ p) (2 ^ m))"
  unfolding box_positions_def triples_product
  by (simp add: distinct_map distinct_product distinct_box_range inj_on_def)


lemma reduce_level_eq:
  assumes "g < p"
  shows "reduce_level p (2 ^ p) g (a, n) =
     (a\<lparr>elem := (\<lambda>q. if aligned (2 ^ p) (2 ^ (p - g)) q then or8 a (2 ^ (p - g - 1)) q else elem a q)\<rparr>,
      n[length n - (g + 1) :=
          length (filter (or8 a (2 ^ (p - g - 1))) (box_positions (2 ^ p) (2 ^ (p - g))))])"
proof -
  have le: "p - g \<le> p" by simp
  have e: "(2::nat) ^ (p - g) = 2 * 2 ^ (p - g - 1)"
    using assms by (metis Suc_diff_Suc diff_Suc_eq_diff_pred power_Suc zero_less_diff diff_zero Suc_pred)
  have h: "(2::nat) ^ (p - g) div 2 = 2 ^ (p - g - 1)" unfolding e by simp
  have al: "\<forall>ix\<in>set (box_positions (2 ^ p) (2 ^ (p - g))). aligned (2 ^ p) (2 * 2 ^ (p - g - 1)) ix"
    unfolding set_box_positions[OF le] e[symmetric] by simp
  have f: "fold (reduce_cell (2 ^ (p - g - 1))) (box_positions (2 ^ p) (2 ^ (p - g))) (a, 0) =
     (a\<lparr>elem := (\<lambda>q. if q \<in> set (box_positions (2 ^ p) (2 ^ (p - g)))
                      then or8 a (2 ^ (p - g - 1)) q else elem a q)\<rparr>,
      0 + length (filter (or8 a (2 ^ (p - g - 1))) (box_positions (2 ^ p) (2 ^ (p - g)))))"
    by (rule fold_reduce_cell[OF _ distinct_box_positions[OF le] al]) simp
  show ?thesis
    unfolding reduce_level_def Let_def h fst_conv snd_conv f
    by (simp add: set_box_positions[OF le])
qed

lemma reduce_level_at:
  assumes "m < p"
  shows "reduce_level p (2 ^ p) (p - m - 1) (a, n) =
     (a\<lparr>elem := (\<lambda>q. if aligned (2 ^ p) (2 ^ (m + 1)) q then or8 a (2 ^ m) q else elem a q)\<rparr>,
      n[length n - (p - m) :=
          length (filter (or8 a (2 ^ m)) (box_positions (2 ^ p) (2 ^ (m + 1))))])"
proof -
  have g: "p - m - 1 < p" using assms by simp
  have e: "p - (p - m - 1) - 1 = m" "p - m - 1 + 1 = p - m" using assms by simp_all
  have e2: "p - (p - m - 1) = m + 1" using assms by simp
  show ?thesis
    using reduce_level_eq[OF g, of a n] unfolding e unfolding e2 .
qed

lemma ex_less_double:
  "(\<exists>a\<in>{0..<2 * s}. P a) = ((\<exists>a\<in>{0..<s}. P a) \<or> (\<exists>a\<in>{0..<s::nat}. P (s + a)))"
proof
  assume "\<exists>a\<in>{0..<2 * s}. P a"
  then obtain a where a: "a < 2 * s" "P a" by auto
  show "(\<exists>a\<in>{0..<s}. P a) \<or> (\<exists>a\<in>{0..<s}. P (s + a))"
  proof (cases "a < s")
    case True
    with a show ?thesis by auto
  next
    case False
    with a have "a - s < s" "P (s + (a - s))" by auto
    then show ?thesis by auto
  qed
next
  assume "(\<exists>a\<in>{0..<s}. P a) \<or> (\<exists>a\<in>{0..<s}. P (s + a))"
  then show "\<exists>a\<in>{0..<2 * s}. P a"
  proof
    assume "\<exists>a\<in>{0..<s}. P a"
    then show ?thesis by auto
  next
    assume "\<exists>a\<in>{0..<s}. P (s + a)"
    then obtain a where "a < s" "P (s + a)" by auto
    then have "s + a \<in> {0..<2 * s}" "P (s + a)" by auto
    then show ?thesis by blast
  qed
qed

lemma block_or_double:
  "block_or c (2 * s) [i, j, k] =
     (block_or c s [i, j, k] \<or> block_or c s [i + s, j, k] \<or> block_or c s [i, j + s, k]
      \<or> block_or c s [i + s, j + s, k] \<or> block_or c s [i, j, k + s]
      \<or> block_or c s [i + s, j, k + s] \<or> block_or c s [i, j + s, k + s]
      \<or> block_or c s [i + s, j + s, k + s])"
  unfolding block_or_def list.case ex_less_double
  by (simp only: bex_disj_distrib add.assoc) blast


lemma aligned_mono: "t \<le> m \<Longrightarrow> aligned w (2 ^ m) q \<Longrightarrow> aligned w (2 ^ t) q"
  unfolding aligned_def using le_imp_power_dvd[of t m "2::nat"] by (auto dest: dvd_trans)

lemma aligned_half_step:
  assumes "m < p" "2 ^ (m + 1) dvd i" "i < (2::nat) ^ p"
  shows "i + 2 ^ m < 2 ^ p" "2 ^ m dvd i" "2 ^ m dvd (i + 2 ^ m)"
proof -
  from assms(2) obtain t where t: "i = 2 ^ (m + 1) * t" by (auto simp add: dvd_def)
  have "p = (m + 1) + (p - (m + 1))" using assms(1) by simp
  then have e: "(2::nat) ^ p = 2 ^ (m + 1) * 2 ^ (p - (m + 1))" by (metis power_add)
  from assms(3) have "t < 2 ^ (p - (m + 1))" unfolding t e by simp
  then have "t + 1 \<le> 2 ^ (p - (m + 1))" by simp
  then have "2 ^ (m + 1) * (t + 1) \<le> (2::nat) ^ (m + 1) * 2 ^ (p - (m + 1))"
    by (rule mult_le_mono2)
  then have "i + 2 ^ (m + 1) \<le> 2 ^ p" unfolding t e by (simp add: algebra_simps)
  moreover have "(0::nat) < 2 ^ m" "(2::nat) ^ (m + 1) = 2 * 2 ^ m" by simp_all
  ultimately show "i + 2 ^ m < 2 ^ p" by linarith
  show "2 ^ m dvd i" unfolding t by simp
  then show "2 ^ m dvd (i + 2 ^ m)" by simp
qed

lemma or8_pyramid:
  assumes "m < p" "aligned (2 ^ p) (2 ^ (m + 1)) q"
    and inv: "\<And>r. aligned (2 ^ p) (2 ^ m) r \<Longrightarrow> elem a r = block_or c (2 ^ m) r"
  shows "or8 a (2 ^ m) q = block_or c (2 ^ (m + 1)) q"
proof -
  from assms(2) obtain i j k where q: "q = [i, j, k]" "i < 2 ^ p" "j < 2 ^ p" "k < 2 ^ p"
    "2 ^ (m + 1) dvd i" "2 ^ (m + 1) dvd j" "2 ^ (m + 1) dvd k"
    unfolding aligned_iff by blast
  note hi = aligned_half_step[OF assms(1) q(5) q(2)]
  note hj = aligned_half_step[OF assms(1) q(6) q(3)]
  note hk = aligned_half_step[OF assms(1) q(7) q(4)]
  have al: "aligned (2 ^ p) (2 ^ m) [i, j, k]" "aligned (2 ^ p) (2 ^ m) [i + 2 ^ m, j, k]"
    "aligned (2 ^ p) (2 ^ m) [i, j + 2 ^ m, k]" "aligned (2 ^ p) (2 ^ m) [i + 2 ^ m, j + 2 ^ m, k]"
    "aligned (2 ^ p) (2 ^ m) [i, j, k + 2 ^ m]" "aligned (2 ^ p) (2 ^ m) [i + 2 ^ m, j, k + 2 ^ m]"
    "aligned (2 ^ p) (2 ^ m) [i, j + 2 ^ m, k + 2 ^ m]"
    "aligned (2 ^ p) (2 ^ m) [i + 2 ^ m, j + 2 ^ m, k + 2 ^ m]"
    using hi hj hk q(2,3,4) by (simp_all add: aligned_def)
  have "block_or c (2 ^ (m + 1)) [i, j, k] = block_or c (2 * 2 ^ m) [i, j, k]" by simp
  also note block_or_double
  finally show ?thesis
    unfolding q(1) or8_def list.case al[THEN inv] by simp
qed

lemma pyramid_step:
  assumes "pyramid p c m (a, n)" "m < p"
  shows "pyramid p c (m + 1) (reduce_level p (2 ^ p) (p - m - 1) (a, n))"
proof -
  from assms(1) have sh: "shape a = shape c" and len: "length n = p + 1"
    and n0: "n ! 0 = getSum (2 ^ p) (2 ^ p) (2 ^ p) c"
    and nt: "\<And>t. 0 < t \<Longrightarrow> t \<le> m \<Longrightarrow>
               n ! t = length (filter (block_or c (2 ^ t)) (box_positions (2 ^ p) (2 ^ t)))"
    and top: "\<And>q. aligned (2 ^ p) (2 ^ m) q \<Longrightarrow> elem a q = block_or c (2 ^ m) q"
    and low: "\<And>t q. t < m \<Longrightarrow> aligned (2 ^ p) (2 ^ t) q \<Longrightarrow> \<not> aligned (2 ^ p) (2 ^ (t + 1)) q \<Longrightarrow>
               elem a q = block_or c (2 ^ t) q"
    and out: "\<And>q. \<not> aligned (2 ^ p) 1 q \<Longrightarrow> elem a q = elem c q"
    unfolding pyramid_def by simp_all
  have g: "length n - (p - m) = m + 1" using assms(2) len by simp
  have le: "m + 1 \<le> p" using assms(2) by simp
  have o: "or8 a (2 ^ m) q = block_or c (2 ^ (m + 1)) q" if "aligned (2 ^ p) (2 ^ (m + 1)) q" for q
    using or8_pyramid[OF assms(2) that top] .
  have cnt: "filter (or8 a (2 ^ m)) (box_positions (2 ^ p) (2 ^ (m + 1))) =
             filter (block_or c (2 ^ (m + 1))) (box_positions (2 ^ p) (2 ^ (m + 1)))"
  proof (rule filter_cong[OF refl])
    fix x assume "x \<in> set (box_positions (2 ^ p) (2 ^ (m + 1)))"
    then have "aligned (2 ^ p) (2 ^ (m + 1)) x" unfolding set_box_positions[OF le] by simp
    then show "or8 a (2 ^ m) x = block_or c (2 ^ (m + 1)) x" by (rule o)
  qed
  let ?a' = "a\<lparr>elem := (\<lambda>q. if aligned (2 ^ p) (2 ^ (m + 1)) q then or8 a (2 ^ m) q else elem a q)\<rparr>"
  let ?n' = "n[m + 1 := length (filter (block_or c (2 ^ (m + 1))) (box_positions (2 ^ p) (2 ^ (m + 1))))]"
  have r: "reduce_level p (2 ^ p) (p - m - 1) (a, n) = (?a', ?n')"
    unfolding reduce_level_at[OF assms(2)] g cnt ..
  show ?thesis
    unfolding r pyramid_def fst_conv snd_conv
  proof (intro conjI allI impI)
    show "shape ?a' = shape c" using sh by simp
    show "length ?n' = p + 1" using len by simp
    show "?n' ! 0 = getSum (2 ^ p) (2 ^ p) (2 ^ p) c" using n0 by simp
  next
    fix t assume t: "0 < t \<and> t \<le> m + 1"
    show "?n' ! t = length (filter (block_or c (2 ^ t)) (box_positions (2 ^ p) (2 ^ t)))"
    proof (cases "t = m + 1")
      case True
      with len le show ?thesis by simp
    next
      case False
      with t nt[of t] show ?thesis by simp
    qed
  next
    fix q assume "aligned (2 ^ p) (2 ^ (m + 1)) q"
    then show "elem ?a' q = block_or c (2 ^ (m + 1)) q" using o by simp
  next
    fix t q assume t: "t < m + 1"
      and q: "aligned (2 ^ p) (2 ^ t) q \<and> \<not> aligned (2 ^ p) (2 ^ (t + 1)) q"
    have "\<not> aligned (2 ^ p) (2 ^ (m + 1)) q"
      using aligned_mono[of "t + 1" "m + 1" "2 ^ p" q] t q by auto
    then have e: "elem ?a' q = elem a q" by simp
    show "elem ?a' q = block_or c (2 ^ t) q"
    proof (cases "t = m")
      case True
      with q top[of q] e show ?thesis by simp
    next
      case False
      with t have "t < m" by simp
      from low[OF this] q e show ?thesis by simp
    qed
  next
    fix q assume q: "\<not> aligned (2 ^ p) 1 q"
    have "\<not> aligned (2 ^ p) (2 ^ (m + 1)) q"
      using aligned_mono[of 0 "m + 1" "2 ^ p" q] q by auto
    with out[OF q] show "elem ?a' q = elem c q" by simp
  qed
qed

lemma pyramid_init:
  "pyramid p c 0 (c, (replicate (p + 1) 0)[0 := getSum (2 ^ p) (2 ^ p) (2 ^ p) c])"
  unfolding pyramid_def fst_conv snd_conv
proof (intro conjI allI impI)
  fix q assume "aligned (2 ^ p) (2 ^ 0) q"
  then obtain i j k where "q = [i, j, k]" unfolding aligned_iff by blast
  then show "elem c q = block_or c (2 ^ 0) q" by (simp add: block_or_def)
qed simp_all

lemma pyramid_fold:
  assumes "pyramid p c 0 st" "m \<le> p"
  shows "pyramid p c m (fold (reduce_level p (2 ^ p)) (rev [p - m..<p]) st)"
  using assms(2)
proof (induction m)
  case 0
  then show ?case using assms(1) by simp
next
  case (Suc m)
  then have m: "m < p" by simp
  have u: "[p - Suc m..<p] = (p - m - 1) # [p - m..<p]"
    using m by (simp add: upt_conv_Cons Suc_diff_Suc)
  obtain a n where an: "fold (reduce_level p (2 ^ p)) (rev [p - m..<p]) st = (a, n)"
    by (cases "fold (reduce_level p (2 ^ p)) (rev [p - m..<p]) st") auto
  from Suc.IH m have "pyramid p c m (a, n)" unfolding an by simp
  from pyramid_step[OF this m] show ?case unfolding u by (simp add: an)
qed

lemma ex_cells:
  "(\<exists>q\<in>set (cells w w w). P q) = (\<exists>i<w. \<exists>j<w. \<exists>k<w. P [i, j, k])"
proof
  assume "\<exists>q\<in>set (cells w w w). P q"
  then obtain i j k where "i < w" "j < w" "k < w" "P [i, j, k]" by (auto simp add: cells_def)
  then show "\<exists>i<w. \<exists>j<w. \<exists>k<w. P [i, j, k]" by blast
next
  assume "\<exists>i<w. \<exists>j<w. \<exists>k<w. P [i, j, k]"
  then obtain i j k where h: "i < w" "j < w" "k < w" "P [i, j, k]" by blast
  then have "[i, j, k] \<in> set (cells w w w)" by (simp add: cells_def image_iff)
  with h(4) show "\<exists>q\<in>set (cells w w w). P q" by blast
qed

lemma getSum_pos:
  "(0 < getSum w w w c) = block_or c w [0, 0, 0]"
proof -
  have "(0 < getSum w w w c) = (\<exists>q\<in>set (cells w w w). elem c q)"
    unfolding getSum_def crop_ravel_cells
    by (simp add: filter_empty_conv)
  also have "\<dots> = (\<exists>i<w. \<exists>j<w. \<exists>k<w. elem c [i, j, k])"
    by (rule ex_cells)
  also have "\<dots> = block_or c w [0, 0, 0]"
    by (simp add: block_or_def Bex_def)
  finally show ?thesis .
qed


text \<open>
  C10. \<open>boxCountFunc\<close>, called with an array \<open>c\<close> of shape \<open>(2 ^ p, 2 ^ p, 2 ^ p)\<close> and
  \<open>width = 2 ^ p\<close>, returns the counts \<open>n\<close> and the box sizes \<open>r\<close> and leaves the caller's
  array changed. \<open>n[0]\<close> is the number of true cells of the array as it was passed, and
  \<open>n[t]\<close> is the number of boxes of side \<open>2 ^ t\<close> that held a true cell. Afterwards the cell
  (0, 0, 0) tells whether the array held any true cell; a cell whose coordinates are all
  multiples of \<open>2 ^ t\<close> but not all of \<open>2 ^ (t + 1)\<close> holds the disjunction of the passed
  array over the box of side \<open>2 ^ t\<close> that starts there. So only the cells with an odd
  coordinate keep their values, and the passed contents are lost wherever a box start
  was false and its box held a true cell.
\<close>

theorem boxCountFunc_overwrites_field:
  assumes "shape c = [2 ^ p, 2 ^ p, 2 ^ p]"
  shows "\<exists>n c'. boxCountFunc c p (2 ^ p) = Inr ((n, map (\<lambda>e. 2 ^ e) [0..<p + 1]), c') \<and>
           shape c' = shape c \<and> length n = p + 1 \<and>
           n ! 0 = getSum (2 ^ p) (2 ^ p) (2 ^ p) c \<and>
           (\<forall>t. 0 < t \<and> t \<le> p \<longrightarrow>
                n ! t = length (filter (block_or c (2 ^ t)) (box_positions (2 ^ p) (2 ^ t)))) \<and>
           elem c' [0, 0, 0] = (0 < getSum (2 ^ p) (2 ^ p) (2 ^ p) c) \<and>
           (\<forall>t<p. \<forall>q. aligned (2 ^ p) (2 ^ t) q \<and> \<not> aligned (2 ^ p) (2 ^ (t + 1)) q \<longrightarrow>
                elem c' q = block_or c (2 ^ t) q) \<and>
           (\<forall>q. \<not> aligned (2 ^ p) 1 q \<longrightarrow> elem c' q = elem c q)"
proof -
  let ?st = "fold (reduce_level p (2 ^ p)) (rev [0..<p])
               (c, (replicate (p + 1) 0)[0 := getSum (2 ^ p) (2 ^ p) (2 ^ p) c])"
  obtain c' n where st: "?st = (c', n)" by (cases ?st) auto
  have b: "boxCountFunc c p (2 ^ p) = Inr ((n, map (\<lambda>e. 2 ^ e) [0..<p + 1]), c')"
    using st by (simp add: boxCountFunc_def computeFast_def assms Let_def)
  have "pyramid p c p ?st" using pyramid_fold[OF pyramid_init order_refl, of p c] by simp
  then have py: "pyramid p c p (c', n)" unfolding st .
  have z: "aligned (2 ^ p) (2 ^ p) [0, 0, 0]" by (simp add: aligned_def)
  from py have "\<forall>q. aligned (2 ^ p) (2 ^ p) q \<longrightarrow> elem c' q = block_or c (2 ^ p) q"
    unfolding pyramid_def fst_conv by (elim conjE)
  with z have "elem c' [0, 0, 0] = block_or c (2 ^ p) [0, 0, 0]" by blast
  then have top: "elem c' [0, 0, 0] = (0 < getSum (2 ^ p) (2 ^ p) (2 ^ p) c)"
    unfolding getSum_pos .
  from py have r1: "shape c' = shape c"
    unfolding pyramid_def fst_conv snd_conv by (elim conjE)
  from py have r2: "length n = p + 1"
    unfolding pyramid_def fst_conv snd_conv by (elim conjE)
  from py have r3: "n ! 0 = getSum (2 ^ p) (2 ^ p) (2 ^ p) c"
    unfolding pyramid_def fst_conv snd_conv by (elim conjE)
  from py have r4: "\<forall>t. 0 < t \<and> t \<le> p \<longrightarrow>
         n ! t = length (filter (block_or c (2 ^ t)) (box_positions (2 ^ p) (2 ^ t)))"
    unfolding pyramid_def fst_conv snd_conv by (elim conjE)
  from py have r5: "\<forall>t<p. \<forall>q. aligned (2 ^ p) (2 ^ t) q \<and> \<not> aligned (2 ^ p) (2 ^ (t + 1)) q \<longrightarrow>
         elem c' q = block_or c (2 ^ t) q"
    unfolding pyramid_def fst_conv snd_conv by (elim conjE)
  from py have r6: "\<forall>q. \<not> aligned (2 ^ p) 1 q \<longrightarrow> elem c' q = elem c q"
    unfolding pyramid_def fst_conv snd_conv by (elim conjE)
  show ?thesis
    by (rule exI[of _ n], rule exI[of _ c']) (intro conjI b r1 r2 r3 r4 top r5 r6)
qed


theorem boxCountFunc_overwrites_field_witness:
  "\<exists>n c'. boxCountFunc \<lparr>shape = [2, 2, 2], elem = (\<lambda>ix. ix = [1, 1, 1])\<rparr> 1 2 = Inr ((n, [1, 2]), c') \<and>
     n ! 0 = 1 \<and> elem c' [0, 0, 0] \<and>
     \<not> elem \<lparr>shape = [2, 2, 2], elem = (\<lambda>ix. ix = [1, 1, 1])\<rparr> [0, 0, 0]"
proof -
  let ?c = "\<lparr>shape = [2, 2, 2], elem = (\<lambda>ix. ix = [1::nat, 1, 1])\<rparr>"
  have a: "shape ?c = [2 ^ 1, 2 ^ 1, 2 ^ 1]" by simp
  have g: "getSum (2 ^ 1) (2 ^ 1) (2 ^ 1) ?c = 1"
    by (simp add: getSum_def crop_ravel_def upt_rec)
  have m: "map (\<lambda>e. 2 ^ e) [0..<1 + 1] = [1, 2::nat]" by (simp add: upt_rec)
  from boxCountFunc_overwrites_field[OF a] obtain n c' where
    r1: "boxCountFunc ?c 1 (2 ^ 1) = Inr ((n, map (\<lambda>e. 2 ^ e) [0..<1 + 1]), c')"
    and r2: "n ! 0 = getSum (2 ^ 1) (2 ^ 1) (2 ^ 1) ?c"
    and r3: "elem c' [0, 0, 0] = (0 < getSum (2 ^ 1) (2 ^ 1) (2 ^ 1) ?c)"
    by (elim exE conjE)
  from r1 have b: "boxCountFunc ?c 1 2 = Inr ((n, [1, 2]), c')" unfolding m by simp
  from r2 have n0: "n ! 0 = 1" unfolding g .
  from r3 have c0: "elem c' [0, 0, 0]" unfolding g by simp
  have e: "\<not> elem ?c [0, 0, 0]" by simp
  show ?thesis
    by (rule exI[of _ n], rule exI[of _ c']) (intro conjI b n0 c0 e)
qed

end
